theory Spec2Isabelle
  imports Main "HOL-Library.Word" "HOL-Library.Multiset"
begin

unbundle bit_operations_syntax

section \<open>Constants of nrb.h and nrb.c\<close>

definition NRB_MAXSECT :: int where "NRB_MAXSECT = 65535"
definition NRB_MAXNOTE :: int where "NRB_MAXNOTE = 1048576"
definition NRB_MINPITCH :: int where "NRB_MINPITCH = - 39"
definition NRB_MAXPITCH :: int where "NRB_MAXPITCH = 48"
definition NRB_MAXART :: int where "NRB_MAXART = 61"
definition NRB_MAXRAMP :: int where "NRB_MAXRAMP = 16384"

definition NRB_VER_OK :: int where "NRB_VER_OK = 0"
definition NRB_VER_MINOR :: int where "NRB_VER_MINOR = 1"
definition NRB_VER_MAJOR :: int where "NRB_VER_MAJOR = 2"
definition NRB_VER_ERROR :: int where "NRB_VER_ERROR = 3"

definition NRB_MAXUINT64 :: "64 word" where "NRB_MAXUINT64 = 9223372036854775807"
definition NRB_MAXUINT32 :: "32 word" where "NRB_MAXUINT32 = 2147483647"
definition NRB_MAXUINT16 :: "16 word" where "NRB_MAXUINT16 = 65535"

definition NRB_MINBIAS8 :: int where "NRB_MINBIAS8 = - 128"
definition NRB_MAXBIAS8 :: int where "NRB_MAXBIAS8 = 127"
definition NRB_BIAS8 :: int where "NRB_BIAS8 = 128"

definition NRB_SIGPRI :: int where "NRB_SIGPRI = 1928196216"
definition NRB_SIGSEC :: int where "NRB_SIGSEC = 778990178"

definition NRB_SECTALLOC_INIT :: int where "NRB_SECTALLOC_INIT = 16"
definition NRB_NOTEALLOC_INIT :: int where "NRB_NOTEALLOC_INIT = 256"

lemmas nrb_consts =
  NRB_MAXSECT_def NRB_MAXNOTE_def NRB_MINPITCH_def NRB_MAXPITCH_def NRB_MAXART_def
  NRB_MAXRAMP_def NRB_VER_OK_def NRB_VER_MINOR_def NRB_VER_MAJOR_def NRB_VER_ERROR_def
  NRB_MAXUINT64_def NRB_MAXUINT32_def NRB_MAXUINT16_def NRB_MINBIAS8_def NRB_MAXBIAS8_def
  NRB_BIAS8_def NRB_SIGPRI_def NRB_SIGSEC_def NRB_SECTALLOC_INIT_def NRB_NOTEALLOC_INIT_def

section \<open>Data model\<close>

text \<open>
  A file is a sequence of bytes. An input file is the list of bytes not yet read; an
  output file is the list of bytes written so far. C integers of a fixed width that come
  from the caller or from the file are words (\<open>int64_t\<close> is a \<open>64 word\<close> read with
  \<open>sint\<close>); the \<open>int\<close> and \<open>int32_t\<close> locals and counters of nrb.c, which stay far
  from their limits, are \<open>int\<close>.
\<close>

type_synonym byte = "8 word"
type_synonym cfile = "byte list"

text \<open>
  \<open>abort()\<close> ends the process. The model returns \<open>Inl (Abort s)\<close>, where \<open>s\<close> is the
  state of the object being worked on (the document, the output file, the input file) at
  the moment of the call.
\<close>

datatype 's fault = Abort 's

definition bind_res :: "'s fault + 'a \<Rightarrow> ('a \<Rightarrow> 's fault + 'b) \<Rightarrow> 's fault + 'b" where
  "bind_res m f = (case m of Inl e \<Rightarrow> Inl e | Inr a \<Rightarrow> f a)"

text \<open>\<open>NRB_NOTE\<close> of nrb.h.\<close>

record nrb_note =
  start :: "64 word"
  release :: "64 word"
  pitch :: "8 word"
  art :: "8 word"
  ramp :: "16 word"
  sect :: "16 word"
  layer_i :: "16 word"

text \<open>
  \<open>struct NRB_DATA_TAG\<close> of nrb.c. The two tables are the allocated arrays: \<open>pSect\<close>
  has \<open>sect_cap\<close> elements of which the first \<open>sect_count\<close> are in use, and likewise
  \<open>pNote\<close>.
\<close>

record nrb_data =
  sect_count :: int
  sect_cap :: int
  note_count :: int
  note_cap :: int
  pSect :: "64 word list"
  pNote :: "nrb_note list"

text \<open>The all-zero note that \<open>calloc\<close> and \<open>memset\<close> leave in unused table slots.\<close>

definition zero_note :: nrb_note where
  "zero_note = \<lparr>start = 0, release = 0, pitch = 0, art = 0, ramp = 0, sect = 0, layer_i = 0\<rparr>"

section \<open>Primitive codec: writing\<close>

definition nrb_writeByte :: "cfile \<Rightarrow> int \<Rightarrow> cfile fault + cfile" where
  "nrb_writeByte pOut c =
     (if c < 0 \<or> c > 255 then Inl (Abort pOut)
      else Inr (pOut @ [word_of_int c]))"

definition nrb_writeUint64 :: "cfile \<Rightarrow> 64 word \<Rightarrow> cfile fault + cfile" where
  "nrb_writeUint64 pOut v =
     bind_res (nrb_writeByte pOut (uint (drop_bit 56 v))) (\<lambda>o1.
     bind_res (nrb_writeByte o1 (uint (drop_bit 48 v AND 0xff))) (\<lambda>o2.
     bind_res (nrb_writeByte o2 (uint (drop_bit 40 v AND 0xff))) (\<lambda>o3.
     bind_res (nrb_writeByte o3 (uint (drop_bit 32 v AND 0xff))) (\<lambda>o4.
     bind_res (nrb_writeByte o4 (uint (drop_bit 24 v AND 0xff))) (\<lambda>o5.
     bind_res (nrb_writeByte o5 (uint (drop_bit 16 v AND 0xff))) (\<lambda>o6.
     bind_res (nrb_writeByte o6 (uint (drop_bit 8 v AND 0xff))) (\<lambda>o7.
     nrb_writeByte o7 (uint (v AND 0xff)))))))))"

definition nrb_writeUint32 :: "cfile \<Rightarrow> 32 word \<Rightarrow> cfile fault + cfile" where
  "nrb_writeUint32 pOut v =
     bind_res (nrb_writeByte pOut (uint (drop_bit 24 v))) (\<lambda>o1.
     bind_res (nrb_writeByte o1 (uint (drop_bit 16 v AND 0xff))) (\<lambda>o2.
     bind_res (nrb_writeByte o2 (uint (drop_bit 8 v AND 0xff))) (\<lambda>o3.
     nrb_writeByte o3 (uint (v AND 0xff)))))"

definition nrb_writeUint16 :: "cfile \<Rightarrow> 16 word \<Rightarrow> cfile fault + cfile" where
  "nrb_writeUint16 pOut v =
     bind_res (nrb_writeByte pOut (uint (drop_bit 8 v))) (\<lambda>o1.
     nrb_writeByte o1 (uint (v AND 0xff)))"

definition nrb_writeBias8 :: "cfile \<Rightarrow> int \<Rightarrow> cfile fault + cfile" where
  "nrb_writeBias8 pOut v =
     (if v < NRB_MINBIAS8 \<or> v > NRB_MAXBIAS8 then Inl (Abort pOut)
      else nrb_writeByte pOut (v + NRB_BIAS8))"

section \<open>Primitive codec: reading\<close>

text \<open>\<open>getc\<close> at the end of the file returns \<open>EOF\<close> and leaves the file there.\<close>

definition nrb_readByte :: "cfile \<Rightarrow> int \<times> cfile" where
  "nrb_readByte pf = (case pf of [] \<Rightarrow> (- 1, []) | b # bs \<Rightarrow> (uint b, bs))"

text \<open>
  The loop shared by \<open>nrb_read64\<close>, \<open>nrb_read32\<close> and \<open>nrb_read16\<close>: the first argument
  is the number of iterations left, the result is the status, \<open>*pv\<close> and the file.
\<close>

fun nrb_read_loop :: "nat \<Rightarrow> 'a::len word \<Rightarrow> cfile \<Rightarrow> int \<times> 'a word \<times> cfile" where
  "nrb_read_loop 0 pv pf = (1, pv, pf)"
| "nrb_read_loop (Suc n) pv pf =
     (let (c, pf') = nrb_readByte pf in
      if c < 0 then (0, pv, pf')
      else nrb_read_loop n (push_bit 8 pv OR word_of_int c) pf')"

definition nrb_read64 :: "cfile \<Rightarrow> int \<times> 64 word \<times> cfile" where
  "nrb_read64 pf = nrb_read_loop 8 0 pf"

definition nrb_read32 :: "cfile \<Rightarrow> int \<times> 32 word \<times> cfile" where
  "nrb_read32 pf = nrb_read_loop 4 0 pf"

definition nrb_read16 :: "cfile \<Rightarrow> int \<times> 16 word \<times> cfile" where
  "nrb_read16 pf = nrb_read_loop 2 0 pf"

text \<open>The result is the \<open>int64_t\<close> returned: the raw value, or \<open>-1\<close>.\<close>

definition nrb_readUint64 :: "cfile \<Rightarrow> 64 word \<times> cfile" where
  "nrb_readUint64 pf =
     (let (st, rv, pf') = nrb_read64 pf;
          status = (if st \<noteq> 0 \<and> rv > NRB_MAXUINT64 then 0 else st)
      in (if status \<noteq> 0 then rv else - 1, pf'))"

text \<open>The result is the \<open>int32_t\<close> returned, as an integer.\<close>

definition nrb_readUint32 :: "cfile \<Rightarrow> int \<times> cfile" where
  "nrb_readUint32 pf =
     (let (st, rv, pf') = nrb_read32 pf;
          status = (if st \<noteq> 0 \<and> rv > NRB_MAXUINT32 then 0 else st)
      in (if status \<noteq> 0 then uint rv else - 1, pf'))"

definition nrb_readUint16 :: "cfile \<Rightarrow> int \<times> cfile" where
  "nrb_readUint16 pf =
     (let (st, rv, pf') = nrb_read16 pf;
          status = (if st \<noteq> 0 \<and> rv > NRB_MAXUINT16 then 0 else st)
      in (if status \<noteq> 0 then uint rv else - 1, pf'))"

text \<open>The result is the status, \<open>*pv\<close> (0 stands for a variable left unset) and the file.\<close>

definition nrb_readBias8 :: "cfile \<Rightarrow> cfile fault + (int \<times> int \<times> cfile)" where
  "nrb_readBias8 pf =
     (let (rv, pf') = nrb_readByte pf;
          status = (if rv < 0 then 0 else (1::int))
      in if status \<noteq> 0 \<and> (rv < 0 \<or> rv > 255) then Inl (Abort pf')
         else if status \<noteq> 0 then Inr (status, rv - NRB_BIAS8, pf')
         else Inr (status, 0, pf'))"

section \<open>Document store\<close>

text \<open>
  The functions below take the document by value and return the updated document, since
  \<open>NRB_DATA\<close> is only ever reached through the one pointer its owner holds. A \<open>NULL\<close>
  argument is not a value of the model, so the \<open>NULL\<close> checks of the source have no
  branch here; \<open>malloc\<close>, \<open>calloc\<close> and \<open>realloc\<close> are taken to succeed.
\<close>

definition nrb_alloc :: nrb_data where
  "nrb_alloc =
     \<lparr>sect_count = 1, sect_cap = NRB_SECTALLOC_INIT,
      note_count = 0, note_cap = NRB_NOTEALLOC_INIT,
      pSect = (replicate (nat NRB_SECTALLOC_INIT) 0)[0 := 0],
      pNote = replicate (nat NRB_NOTEALLOC_INIT) zero_note\<rparr>"

definition nrb_sections :: "nrb_data \<Rightarrow> int" where
  "nrb_sections pd = sect_count pd"

definition nrb_notes :: "nrb_data \<Rightarrow> int" where
  "nrb_notes pd = note_count pd"

definition nrb_offset :: "nrb_data \<Rightarrow> int \<Rightarrow> nrb_data fault + 64 word" where
  "nrb_offset pd sect_i =
     (if sect_i < 0 \<or> sect_i \<ge> sect_count pd then Inl (Abort pd)
      else Inr (pSect pd ! nat sect_i))"

definition nrb_get :: "nrb_data \<Rightarrow> int \<Rightarrow> nrb_data fault + nrb_note" where
  "nrb_get pd note_i =
     (if note_i < 0 \<or> note_i \<ge> note_count pd then Inl (Abort pd)
      else Inr (pNote pd ! nat note_i))"

text \<open>
  The checks that \<open>nrb_set\<close> and \<open>nrb_append\<close> both make on the fields of the note, in
  the order of the source: \<open>None\<close> when the note passes, otherwise the abort.
\<close>

definition check_note :: "nrb_data \<Rightarrow> nrb_note \<Rightarrow> nrb_data fault option" where
  "check_note pd pn =
     (if sint (start pn) < 0 then Some (Abort pd)
      else if sint (release pn) \<le> sint (start pn) then Some (Abort pd)
      else if sint (pitch pn) < NRB_MINPITCH \<or> sint (pitch pn) > NRB_MAXPITCH
        then Some (Abort pd)
      else if uint (art pn AND 0x3f) > NRB_MAXART then Some (Abort pd)
      else if uint (ramp pn) > NRB_MAXRAMP then Some (Abort pd)
      else if uint (sect pn) \<ge> sect_count pd then Some (Abort pd)
      else (case nrb_offset pd (uint (sect pn)) of
              Inl e \<Rightarrow> Some e
            | Inr off \<Rightarrow> if sint (start pn) < sint off then Some (Abort pd) else None))"

definition nrb_set :: "nrb_data \<Rightarrow> int \<Rightarrow> nrb_note \<Rightarrow> nrb_data fault + nrb_data" where
  "nrb_set pd note_i pn =
     (if note_i < 0 \<or> note_i \<ge> note_count pd then Inl (Abort pd)
      else (case check_note pd pn of
              Some e \<Rightarrow> Inl e
            | None \<Rightarrow> Inr (pd\<lparr>pNote := (pNote pd)[nat note_i := pn]\<rparr>)))"

text \<open>
  \<open>realloc\<close> to \<open>newcap\<close> elements followed by the \<open>memset\<close> of the elements from the old
  capacity on.
\<close>

definition regrow :: "'a list \<Rightarrow> int \<Rightarrow> int \<Rightarrow> 'a \<Rightarrow> 'a list" where
  "regrow tbl cap newcap z = take (nat newcap) tbl @ replicate (nat (newcap - cap)) z"

definition nrb_sect :: "nrb_data \<Rightarrow> 64 word \<Rightarrow> nrb_data fault + (int \<times> nrb_data)" where
  "nrb_sect pd offset =
     (if sint offset < 0 then Inl (Abort pd)
      else (case nrb_offset pd (sect_count pd - 1) of
        Inl e \<Rightarrow> Inl e
      | Inr last_off \<Rightarrow>
          if sint offset < sint last_off then Inl (Abort pd)
          else if sect_count pd < NRB_MAXSECT then
            (let pd1 =
                   (if sect_count pd \<ge> sect_cap pd then
                      (let newcap = sect_cap pd * 2;
                           newcap = (if newcap < NRB_SECTALLOC_INIT
                                     then NRB_SECTALLOC_INIT else newcap);
                           newcap = (if newcap > NRB_MAXSECT then NRB_MAXSECT else newcap)
                       in pd\<lparr>pSect := regrow (pSect pd) (sect_cap pd) newcap 0,
                             sect_cap := newcap\<rparr>)
                    else pd)
             in Inr (1, pd1\<lparr>pSect := (pSect pd1)[nat (sect_count pd1) := offset],
                            sect_count := sect_count pd1 + 1\<rparr>))
          else Inr (0, pd)))"

definition nrb_append :: "nrb_data \<Rightarrow> nrb_note \<Rightarrow> nrb_data fault + (int \<times> nrb_data)" where
  "nrb_append pd pn =
     (case check_note pd pn of
        Some e \<Rightarrow> Inl e
      | None \<Rightarrow>
          if note_count pd < NRB_MAXNOTE then
            (let pd1 =
                   (if note_count pd \<ge> note_cap pd then
                      (let newcap = note_cap pd * 2;
                           newcap = (if newcap < NRB_NOTEALLOC_INIT
                                     then NRB_NOTEALLOC_INIT else newcap);
                           newcap = (if newcap > NRB_MAXNOTE then NRB_MAXNOTE else newcap)
                       in pd\<lparr>pNote := regrow (pNote pd) (note_cap pd) newcap zero_note,
                             note_cap := newcap\<rparr>)
                    else pd)
             in Inr (1, pd1\<lparr>pNote := (pNote pd1)[nat (note_count pd1) := pn],
                            note_count := note_count pd1 + 1\<rparr>))
          else Inr (0, pd))"

section \<open>Ordering utility\<close>

text \<open>
  The comparison function handed to \<open>qsort\<close>. Its last branch aborts; no state of the
  document is at hand there, so the fault carries none.
\<close>

definition nrb_cmp :: "nrb_note \<Rightarrow> nrb_note \<Rightarrow> unit fault + int" where
  "nrb_cmp pa pb =
     (if sint (start pa) < sint (start pb) then Inr (- 1)
      else if sint (start pa) > sint (start pb) then Inr 1
      else if sint (start pa) = sint (start pb) then Inr 0
      else Inl (Abort ()))"

text \<open>
  \<open>qsort\<close> belongs to the C library, not to this repository, so \<open>nrb_sort\<close> takes it as
  a parameter: a function from the comparison function and the array to the sorted array,
  or to the array as it stood when the comparison function aborted. \<open>nrb_sort\<close> passes
  it the \<open>note_count\<close> elements in use.
\<close>

type_synonym qsort_fn =
  "(nrb_note \<Rightarrow> nrb_note \<Rightarrow> unit fault + int) \<Rightarrow> nrb_note list \<Rightarrow>
     nrb_note list fault + nrb_note list"

definition nrb_sort :: "qsort_fn \<Rightarrow> nrb_data \<Rightarrow> nrb_data fault + nrb_data" where
  "nrb_sort qsort pd =
     (if note_count pd > 1 then
        (case qsort nrb_cmp (take (nat (note_count pd)) (pNote pd)) of
           Inl (Abort arr) \<Rightarrow>
             Inl (Abort (pd\<lparr>pNote := arr @ drop (nat (note_count pd)) (pNote pd)\<rparr>))
         | Inr arr \<Rightarrow> Inr (pd\<lparr>pNote := arr @ drop (nat (note_count pd)) (pNote pd)\<rparr>))
      else Inr pd)"

text \<open>
  What the C standard promises of \<open>qsort\<close> when the comparison function never aborts,
  stated for \<open>nrb_cmp\<close>: the result holds the same elements, and no element compares
  greater than one that follows it.
\<close>

definition qsort_contract :: "qsort_fn \<Rightarrow> bool" where
  "qsort_contract qsort \<longleftrightarrow>
     (\<forall>xs. \<exists>ys. qsort nrb_cmp xs = Inr ys \<and> mset ys = mset xs \<and>
        sorted_wrt (\<lambda>a b. \<exists>r. nrb_cmp a b = Inr r \<and> r \<le> 0) ys)"

section \<open>Format driver: serialize\<close>

fun write_sections :: "cfile \<Rightarrow> 64 word list \<Rightarrow> cfile fault + cfile" where
  "write_sections pf [] = Inr pf"
| "write_sections pf (s # ss) = bind_res (nrb_writeUint64 pf s) (\<lambda>pf'. write_sections pf' ss)"

definition write_note :: "cfile \<Rightarrow> nrb_note \<Rightarrow> cfile fault + cfile" where
  "write_note pf pn =
     bind_res (nrb_writeUint64 pf (start pn)) (\<lambda>o1.
     bind_res (nrb_writeUint64 o1 (release pn)) (\<lambda>o2.
     bind_res (nrb_writeBias8 o2 (sint (pitch pn))) (\<lambda>o3.
     bind_res (nrb_writeByte o3 (uint (art pn))) (\<lambda>o4.
     bind_res (nrb_writeUint16 o4 (ramp pn)) (\<lambda>o5.
     bind_res (nrb_writeUint16 o5 (sect pn)) (\<lambda>o6.
     nrb_writeUint16 o6 (layer_i pn)))))))"

fun write_notes :: "cfile \<Rightarrow> nrb_note list \<Rightarrow> cfile fault + cfile" where
  "write_notes pf [] = Inr pf"
| "write_notes pf (n # ns) = bind_res (write_note pf n) (\<lambda>pf'. write_notes pf' ns)"

text \<open>
  The two loops run over the elements in use, \<open>pSect[0 .. sect_count - 1]\<close> and
  \<open>pNote[0 .. note_count - 1]\<close>. The result is the status and the output file.
\<close>

definition nrb_serialize :: "nrb_data \<Rightarrow> cfile \<Rightarrow> cfile fault + (int \<times> cfile)" where
  "nrb_serialize pd pf =
     (if note_count pd > 0 then
        bind_res (nrb_writeUint32 pf (word_of_int NRB_SIGPRI)) (\<lambda>o1.
        bind_res (nrb_writeUint32 o1 (word_of_int NRB_SIGSEC)) (\<lambda>o2.
        bind_res (nrb_writeByte o2 1) (\<lambda>o3.
        bind_res (nrb_writeByte o3 0) (\<lambda>o4.
        bind_res (nrb_writeUint16 o4 (word_of_int (sect_count pd))) (\<lambda>o5.
        bind_res (nrb_writeUint32 o5 (word_of_int (note_count pd))) (\<lambda>o6.
        bind_res (nrb_writeUint32 o6 0) (\<lambda>o7.
        bind_res (nrb_writeUint32 o7 0) (\<lambda>o8.
        bind_res (nrb_writeUint32 o8 0) (\<lambda>o9.
        bind_res (nrb_writeUint32 o9 0) (\<lambda>o10.
        bind_res (write_sections o10 (take (nat (sect_count pd)) (pSect pd))) (\<lambda>o11.
        bind_res (write_notes o11 (take (nat (note_count pd)) (pNote pd))) (\<lambda>o12.
        Inr (1, o12)))))))))))))
      else Inr (0, pf))"

section \<open>Format driver: parse\<close>

text \<open>
  \<open>nrb_parse\<close> is one long function in which every step runs only while \<open>status\<close> is
  still set. The model follows it block by block; a block that clears \<open>status\<close> ends the
  parse with no document. The result of \<open>nrb_parse\<close> is the value left in \<open>*pVer\<close>,
  the document returned (\<open>None\<close> for \<open>NULL\<close>) and the input file after the call.
\<close>

text \<open>Signatures and version numbers: the value for \<open>*pVer\<close>, \<open>status\<close>, the file.\<close>

definition parse_version :: "cfile \<Rightarrow> int \<times> bool \<times> cfile" where
  "parse_version pf =
     (let (s1, pf1) = nrb_readUint32 pf in
      if s1 \<noteq> NRB_SIGPRI then (NRB_VER_ERROR, False, pf1) else
      let (s2, pf2) = nrb_readUint32 pf1 in
      if s2 \<noteq> NRB_SIGSEC then (NRB_VER_ERROR, False, pf2) else
      let (ver_major, pf3) = nrb_readByte pf2 in
      if ver_major < 0 then (NRB_VER_ERROR, False, pf3) else
      let (ver_minor, pf4) = nrb_readByte pf3 in
      if ver_minor < 0 then (NRB_VER_ERROR, False, pf4) else
      if ver_major \<noteq> 1 then (NRB_VER_MAJOR, False, pf4) else
      if ver_minor = 0 then (NRB_VER_OK, True, pf4) else (NRB_VER_MINOR, True, pf4))"

text \<open>The section count and the note count.\<close>

definition parse_counts :: "cfile \<Rightarrow> (int \<times> int) option \<times> cfile" where
  "parse_counts pf =
     (let (sc, pf1) = nrb_readUint16 pf in
      if sc < 1 \<or> sc > NRB_MAXSECT then (None, pf1) else
      let (nc, pf2) = nrb_readUint32 pf1 in
      if nc < 1 \<or> nc > NRB_MAXNOTE then (None, pf2) else
      (Some (sc, nc), pf2))"

text \<open>The four reserved fields.\<close>

definition parse_reserved :: "cfile \<Rightarrow> bool \<times> cfile" where
  "parse_reserved pf =
     (let (r1, pf1) = nrb_readUint32 pf in
      if r1 < 0 then (False, pf1) else
      let (r2, pf2) = nrb_readUint32 pf1 in
      if r2 < 0 then (False, pf2) else
      let (r3, pf3) = nrb_readUint32 pf2 in
      if r3 < 0 then (False, pf3) else
      let (r4, pf4) = nrb_readUint32 pf3 in
      if r4 < 0 then (False, pf4) else
      (True, pf4))"

text \<open>
  The loop over the section table: iterations left, the index \<open>i\<close>, the array, the file.
\<close>

fun parse_sect_loop ::
  "nat \<Rightarrow> nat \<Rightarrow> 64 word list \<Rightarrow> cfile \<Rightarrow> 64 word list option \<times> cfile" where
  "parse_sect_loop 0 i ps pf = (Some ps, pf)"
| "parse_sect_loop (Suc k) i ps pf =
     (let (v, pf') = nrb_readUint64 pf;
          ps' = ps[i := v]
      in if sint (ps' ! i) < 0 then (None, pf')
         else if i < 1 then
           (if ps' ! i \<noteq> 0 then (None, pf') else parse_sect_loop k (Suc i) ps' pf')
         else
           (if sint (ps' ! i) < sint (ps' ! (i - 1)) then (None, pf')
            else parse_sect_loop k (Suc i) ps' pf'))"

text \<open>
  The body of the loop over the note table: the fields of one note, then the check of
  its start against its section.
\<close>

definition parse_note ::
  "int \<Rightarrow> 64 word list \<Rightarrow> cfile \<Rightarrow> cfile fault + (nrb_note option \<times> cfile)" where
  "parse_note sc ps pf =
     (let (st, pf1) = nrb_readUint64 pf in
      if sint st < 0 then Inr (None, pf1) else
      let (rl, pf2) = nrb_readUint64 pf1 in
      if sint rl \<le> sint st then Inr (None, pf2) else
      case nrb_readBias8 pf2 of
        Inl e \<Rightarrow> Inl e
      | Inr (ok, v, pf3) \<Rightarrow>
      if ok = 0 then Inr (None, pf3) else
      if \<not> (v \<ge> NRB_MINPITCH \<and> v \<le> NRB_MAXPITCH) then Inr (None, pf3) else
      let (a, pf4) = nrb_readByte pf3 in
      if \<not> a \<ge> 0 then Inr (None, pf4) else
      if \<not> (a AND 0x3f) \<le> NRB_MAXART then Inr (None, pf4) else
      let (u, pf5) = nrb_readUint16 pf4 in
      if \<not> (u \<ge> 0 \<and> u \<le> NRB_MAXRAMP) then Inr (None, pf5) else
      let (s, pf6) = nrb_readUint16 pf5 in
      if \<not> (s \<ge> 0 \<and> s < sc) then Inr (None, pf6) else
      let (l, pf7) = nrb_readUint16 pf6 in
      if \<not> l \<ge> 0 then Inr (None, pf7) else
      let pn = \<lparr>start = st, release = rl, pitch = word_of_int v, art = word_of_int a,
                ramp = word_of_int u, sect = word_of_int s, layer_i = word_of_int l\<rparr>
      in if sint (start pn) < sint (ps ! unat (sect pn)) then Inr (None, pf7)
         else Inr (Some pn, pf7))"

fun parse_note_loop ::
  "nat \<Rightarrow> nat \<Rightarrow> int \<Rightarrow> 64 word list \<Rightarrow> nrb_note list \<Rightarrow> cfile \<Rightarrow>
     cfile fault + (nrb_note list option \<times> cfile)" where
  "parse_note_loop 0 i sc ps pn pf = Inr (Some pn, pf)"
| "parse_note_loop (Suc k) i sc ps pn pf =
     (case parse_note sc ps pf of
        Inl e \<Rightarrow> Inl e
      | Inr (None, pf') \<Rightarrow> Inr (None, pf')
      | Inr (Some n, pf') \<Rightarrow> parse_note_loop k (Suc i) sc ps (pn[i := n]) pf')"

definition nrb_parse :: "cfile \<Rightarrow> cfile fault + (int \<times> nrb_data option \<times> cfile)" where
  "nrb_parse pf =
     (case parse_version pf of
        (ver, False, pf1) \<Rightarrow> Inr (ver, None, pf1)
      | (ver, True, pf1) \<Rightarrow>
     (case parse_counts pf1 of
        (None, pf2) \<Rightarrow> Inr (ver, None, pf2)
      | (Some (sc, nc), pf2) \<Rightarrow>
     (case parse_reserved pf2 of
        (False, pf3) \<Rightarrow> Inr (ver, None, pf3)
      | (True, pf3) \<Rightarrow>
     (case parse_sect_loop (nat sc) 0 (replicate (nat sc) 0) pf3 of
        (None, pf4) \<Rightarrow> Inr (ver, None, pf4)
      | (Some ps, pf4) \<Rightarrow>
     (case parse_note_loop (nat nc) 0 sc ps (replicate (nat nc) zero_note) pf4 of
        Inl e \<Rightarrow> Inl e
      | Inr (None, pf5) \<Rightarrow> Inr (ver, None, pf5)
      | Inr (Some pn, pf5) \<Rightarrow>
          Inr (ver,
               Some \<lparr>sect_count = sc, sect_cap = sc, note_count = nc, note_cap = nc,
                     pSect = ps, pNote = pn\<rparr>,
               pf5))))))"

section \<open>Vocabulary of the properties\<close>

text \<open>
  The definitions of this section are not code of the library: they name the byte
  layouts, the invariants and the call sequences that the theorems speak about.
\<close>

subsection \<open>Big-endian layouts\<close>

text \<open>The \<open>n\<close> low bytes of a word, most significant first.\<close>

fun be_bytes :: "nat \<Rightarrow> 'a::len word \<Rightarrow> byte list" where
  "be_bytes 0 v = []"
| "be_bytes (Suc n) v = ucast (drop_bit (8 * n) v) # be_bytes n v"

definition be64 :: "64 word \<Rightarrow> byte list" where "be64 v = be_bytes 8 v"
definition be32 :: "32 word \<Rightarrow> byte list" where "be32 v = be_bytes 4 v"
definition be16 :: "16 word \<Rightarrow> byte list" where "be16 v = be_bytes 2 v"

text \<open>The 24 bytes of a note record and the 32 bytes of a version 1.0 header.\<close>

definition enc_note :: "nrb_note \<Rightarrow> byte list" where
  "enc_note pn =
     be64 (start pn) @ be64 (release pn) @ [pitch pn + 128] @ [art pn] @
     be16 (ramp pn) @ be16 (sect pn) @ be16 (layer_i pn)"

definition enc_header :: "int \<Rightarrow> int \<Rightarrow> byte list" where
  "enc_header sc nc =
     be32 (word_of_int NRB_SIGPRI) @ be32 (word_of_int NRB_SIGSEC) @ [1, 0] @
     be16 (word_of_int sc) @ be32 (word_of_int nc) @
     be32 0 @ be32 0 @ be32 0 @ be32 0"

definition sections_of :: "nrb_data \<Rightarrow> 64 word list" where
  "sections_of pd = take (nat (sect_count pd)) (pSect pd)"

definition notes_of :: "nrb_data \<Rightarrow> nrb_note list" where
  "notes_of pd = take (nat (note_count pd)) (pNote pd)"

definition enc_doc :: "nrb_data \<Rightarrow> byte list" where
  "enc_doc pd =
     enc_header (sect_count pd) (note_count pd) @
     concat (map be64 (sections_of pd)) @ concat (map enc_note (notes_of pd))"

subsection \<open>Invariants of a document\<close>

text \<open>The seven rules for a note, against the section table of a document.\<close>

definition note_ok :: "nrb_data \<Rightarrow> nrb_note \<Rightarrow> bool" where
  "note_ok pd pn \<longleftrightarrow>
     0 \<le> sint (start pn) \<and> sint (start pn) < sint (release pn) \<and>
     NRB_MINPITCH \<le> sint (pitch pn) \<and> sint (pitch pn) \<le> NRB_MAXPITCH \<and>
     uint (art pn AND 0x3f) \<le> NRB_MAXART \<and> uint (ramp pn) \<le> NRB_MAXRAMP \<and>
     uint (sect pn) < sect_count pd \<and>
     sint (pSect pd ! unat (sect pn)) \<le> sint (start pn)"

text \<open>A section table: first offset zero, no negative offset, offsets never decreasing.\<close>

definition sect_table_inv :: "64 word list \<Rightarrow> bool" where
  "sect_table_inv vs \<longleftrightarrow>
     vs \<noteq> [] \<and> hd vs = 0 \<and> (\<forall>v \<in> set vs. 0 \<le> sint v) \<and>
     sorted_wrt (\<lambda>a b. sint a \<le> sint b) vs"

definition doc_inv :: "nrb_data \<Rightarrow> bool" where
  "doc_inv pd \<longleftrightarrow>
     1 \<le> sect_count pd \<and> sect_count pd \<le> sect_cap pd \<and> sect_cap pd \<le> NRB_MAXSECT \<and>
     length (pSect pd) = nat (sect_cap pd) \<and>
     0 \<le> note_count pd \<and> note_count pd \<le> note_cap pd \<and> note_cap pd \<le> NRB_MAXNOTE \<and>
     length (pNote pd) = nat (note_cap pd) \<and>
     sect_table_inv (sections_of pd) \<and>
     (\<forall>pn \<in> set (notes_of pd). note_ok pd pn)"

subsection \<open>Validly constructed documents\<close>

text \<open>
  The documents a caller can hold: the empty document, a parsed one, and whatever the
  mutators return from those. A mutator that aborts returns nothing.
\<close>

inductive constructed :: "nrb_data \<Rightarrow> bool" where
  c_alloc: "constructed nrb_alloc"
| c_parse: "nrb_parse pf = Inr (ver, Some pd, pf') \<Longrightarrow> constructed pd"
| c_sect: "constructed pd \<Longrightarrow> nrb_sect pd offset = Inr (st, pd') \<Longrightarrow> constructed pd'"
| c_append: "constructed pd \<Longrightarrow> nrb_append pd pn = Inr (st, pd') \<Longrightarrow> constructed pd'"
| c_set: "constructed pd \<Longrightarrow> nrb_set pd i pn = Inr pd' \<Longrightarrow> constructed pd'"
| c_sort: "constructed pd \<Longrightarrow> qsort_contract qsort \<Longrightarrow> nrb_sort qsort pd = Inr pd' \<Longrightarrow>
           constructed pd'"

subsection \<open>Call sequences\<close>

text \<open>
  Appending a list of notes, or of sections, one call after the other: the statuses
  returned and the final document, or the first abort.
\<close>

fun append_all :: "nrb_data \<Rightarrow> nrb_note list \<Rightarrow> nrb_data fault + (int list \<times> nrb_data)" where
  "append_all pd [] = Inr ([], pd)"
| "append_all pd (pn # pns) =
     (case nrb_append pd pn of
        Inl e \<Rightarrow> Inl e
      | Inr (st, pd') \<Rightarrow>
          (case append_all pd' pns of
             Inl e \<Rightarrow> Inl e
           | Inr (sts, pd'') \<Rightarrow> Inr (st # sts, pd'')))"

fun sect_all :: "nrb_data \<Rightarrow> 64 word list \<Rightarrow> nrb_data fault + (int list \<times> nrb_data)" where
  "sect_all pd [] = Inr ([], pd)"
| "sect_all pd (off # offs) =
     (case nrb_sect pd off of
        Inl e \<Rightarrow> Inl e
      | Inr (st, pd') \<Rightarrow>
          (case sect_all pd' offs of
             Inl e \<Rightarrow> Inl e
           | Inr (sts, pd'') \<Rightarrow> Inr (st # sts, pd'')))"

subsection \<open>An instance of the library sort\<close>




subsection \<open>A small file\<close>

text \<open>
  A file of minor version 1 with one section at offset 0 and the one note
  \<open>example_note\<close>, and the document it stands for.
\<close>

definition example_note :: nrb_note where
  "example_note =
     \<lparr>start = 0, release = 1000, pitch = 0, art = 0, ramp = 0, sect = 0, layer_i = 0\<rparr>"

definition example_stream :: cfile where
  "example_stream =
     [0x72, 0xED, 0xF0, 0x78,  0x2E, 0x6E, 0x72, 0x62,  1, 1,  0, 1,  0, 0, 0, 1,
      0, 0, 0, 0,  0, 0, 0, 0,  0, 0, 0, 0,  0, 0, 0, 0,
      0, 0, 0, 0, 0, 0, 0, 0,
      0, 0, 0, 0, 0, 0, 0, 0,  0, 0, 0, 0, 0, 0, 0x03, 0xE8,  0x80,  0,  0, 0,  0, 0,  0, 0]"

definition example_doc :: nrb_data where
  "example_doc =
     \<lparr>sect_count = 1, sect_cap = 1, note_count = 1, note_cap = 1,
      pSect = [0], pNote = [example_note]\<rparr>"

text \<open>
  The file of scenario B with any sixteen bytes \<open>r\<close> in the place of the four reserved
  fields: the two signatures, major version 1, minor version 1, a section count of 1, a
  note count of 1, the bytes \<open>r\<close>, one section at offset 0 and the note
  \<open>example_note\<close>. With sixteen zero bytes it is \<open>example_stream\<close>.
\<close>

definition scenario_stream :: "byte list \<Rightarrow> cfile" where
  "scenario_stream r =
     be32 (word_of_int NRB_SIGPRI) @ be32 (word_of_int NRB_SIGSEC) @ [1, 1] @
     be16 1 @ be32 1 @ r @ be64 0 @ enc_note example_note"

text \<open>
  A section table as the file holds it, its entries read as unsigned values: not empty,
  first entry zero, no entry less than the one before it, no entry above
  \<open>NRB_MAXUINT64\<close>.
\<close>

definition sect_table_ok :: "64 word list \<Rightarrow> bool" where
  "sect_table_ok vs \<longleftrightarrow>
     vs \<noteq> [] \<and> hd vs = 0 \<and> sorted vs \<and> (\<forall>v \<in> set vs. v \<le> NRB_MAXUINT64)"

text \<open>
  A version 1.0 file with two sections, the second at offset \<open>2^63\<close>, and one note.
\<close>

definition bad_section_stream :: cfile where
  "bad_section_stream =
     enc_header 2 1 @ concat (map be64 [0, 0x8000000000000000]) @ enc_note example_note"

text \<open>
  The sixteen reserved bytes of a header, each of the four fields with its top bit clear,
  that is a value of at most \<open>NRB_MAXUINT32 = 2^31 - 1\<close>.
\<close>

definition reserved_ok :: "byte list \<Rightarrow> bool" where
  "reserved_ok r \<longleftrightarrow>
     length r = 16 \<and> r ! 0 < 0x80 \<and> r ! 4 < 0x80 \<and> r ! 8 < 0x80 \<and> r ! 12 < 0x80"

text \<open>
  What the caller of \<open>nrb_parse\<close> receives, when the call returns: the version status
  and the document.
\<close>

definition parse_outcome :: "cfile \<Rightarrow> (int \<times> nrb_data option) option" where
  "parse_outcome pf =
     (case nrb_parse pf of Inl e \<Rightarrow> None | Inr (ver, pd, pf') \<Rightarrow> Some (ver, pd))"



section \<open>Properties of the primitive codec\<close>

lemma bind_res_simps [simp]:
  "bind_res (Inr a) f = f a" "bind_res (Inl e) f = Inl e"
  by (simp_all add: bind_res_def)

lemma mask_ff: "(0xff :: 'a::len word) = mask 8"
  by (simp add: mask_eq_exp_minus_1)

lemma writeByte_word:
  fixes y :: "'a::len word"
  assumes "y = take_bit 8 y"
  shows "nrb_writeByte pOut (uint y) = Inr (pOut @ [ucast y])"
proof -
  have "uint y = uint (take_bit 8 y)" using assms by simp
  also have "\<dots> < 2 ^ 8"
    using take_bit_int_less_exp [of 8 "uint y"] by (simp add: unsigned_take_bit_eq)
  finally have "uint y < 256" by simp
  moreover have "(word_of_int (uint y) :: byte) = ucast y"
    by simp
  ultimately show ?thesis by (simp add: nrb_writeByte_def)
qed

lemma writeByte_mask:
  "nrb_writeByte pOut (uint ((x :: 'a::len word) AND 0xff)) = Inr (pOut @ [ucast x])"
proof -
  have a: "x AND 0xff = take_bit 8 (x AND 0xff)"
    unfolding mask_ff by (rule bit_word_eqI) (auto simp: bit_simps)
  have b: "(ucast (x AND 0xff) :: byte) = ucast x"
    unfolding mask_ff by (rule bit_word_eqI) (auto simp: bit_simps dest: bit_imp_le_length)
  from writeByte_word [OF a] b show ?thesis by simp
qed

lemma writeByte_top:
  fixes v :: "'a::len word"
  assumes "LENGTH('a) \<le> n + 8"
  shows "nrb_writeByte pOut (uint (drop_bit n v)) = Inr (pOut @ [ucast (drop_bit n v)])"
proof -
  have "drop_bit n v = take_bit 8 (drop_bit n v)"
    using assms by (intro bit_word_eqI) (auto simp: bit_simps dest: bit_imp_le_length)
  then show ?thesis by (rule writeByte_word)
qed

lemma writeUint64_be64: "nrb_writeUint64 pOut v = Inr (pOut @ be64 v)"
  by (simp add: nrb_writeUint64_def be64_def writeByte_mask writeByte_top numeral_eq_Suc)

lemma writeUint32_be32: "nrb_writeUint32 pOut v = Inr (pOut @ be32 v)"
  by (simp add: nrb_writeUint32_def be32_def writeByte_mask writeByte_top numeral_eq_Suc)

lemma writeUint16_be16: "nrb_writeUint16 pOut v = Inr (pOut @ be16 v)"
  by (simp add: nrb_writeUint16_def be16_def writeByte_mask writeByte_top numeral_eq_Suc)

lemma read_loop_long:
  "n \<le> length pf \<Longrightarrow>
   nrb_read_loop n pv pf =
     (1, foldl (\<lambda>w b. push_bit 8 w OR ucast b) pv (take n pf), drop n pf)"
proof (induction n arbitrary: pv pf)
  case 0 then show ?case by simp
next
  case (Suc n)
  then obtain b bs where pf: "pf = b # bs" by (cases pf) auto
  with Suc.prems have "n \<le> length bs" by simp
  from Suc.IH [OF this] show ?case
    by (simp add: pf nrb_readByte_def)
qed

lemma read_loop_short:
  "length pf < n \<Longrightarrow>
   fst (nrb_read_loop n pv pf) = 0 \<and> snd (snd (nrb_read_loop n pv pf)) = []"
proof (induction n arbitrary: pv pf)
  case 0 then show ?case by simp
next
  case (Suc n)
  show ?case
  proof (cases pf)
    case Nil then show ?thesis by (simp add: nrb_readByte_def)
  next
    case (Cons b bs)
    with Suc.prems have "length bs < n" by simp
    from Suc.IH [OF this] show ?thesis by (simp add: Cons nrb_readByte_def)
  qed
qed

lemma length_be_bytes [simp]: "length (be_bytes n v) = n"
  by (induction n) auto

lemma decode_step:
  fixes v pv :: "'a::len word"
  shows "push_bit (8 * n) (push_bit 8 pv OR ucast (ucast (drop_bit (8 * n) v) :: byte))
           OR take_bit (8 * n) v
         = push_bit (8 * Suc n) pv OR take_bit (8 * Suc n) v"
  by (rule bit_word_eqI) (auto simp: bit_simps ac_simps)

lemma decode_be_bytes:
  fixes v pv :: "'a::len word"
  shows "foldl (\<lambda>w b. push_bit 8 w OR ucast b) pv (be_bytes n v)
         = push_bit (8 * n) pv OR take_bit (8 * n) v"
proof (induction n arbitrary: pv)
  case 0 then show ?case by simp
next
  case (Suc n)
  show ?case
    using decode_step [of n pv v] by (simp add: Suc.IH)
qed

lemma read_loop_be_bytes:
  fixes v :: "'a::len word"
  assumes "LENGTH('a) \<le> 8 * n"
  shows "nrb_read_loop n (0 :: 'a word) (be_bytes n v @ t) = (1, v, t)"
  using assms by (simp add: read_loop_long decode_be_bytes take_bit_word_eq_self)

lemma read64_be64: "nrb_read64 (be64 v @ t) = (1, v, t)"
  by (simp add: nrb_read64_def be64_def read_loop_be_bytes)

lemma read32_be32: "nrb_read32 (be32 v @ t) = (1, v, t)"
  by (simp add: nrb_read32_def be32_def read_loop_be_bytes)

lemma read16_be16: "nrb_read16 (be16 v @ t) = (1, v, t)"
  by (simp add: nrb_read16_def be16_def read_loop_be_bytes)

lemma uint_byte_of_int: "0 \<le> c \<Longrightarrow> c \<le> 255 \<Longrightarrow> uint (word_of_int c :: byte) = c"
  by (simp add: uint_word_of_int)

section \<open>Properties of the document store\<close>

lemma nrb_offset_ok:
  "0 \<le> i \<Longrightarrow> i < sect_count pd \<Longrightarrow> nrb_offset pd i = Inr (pSect pd ! nat i)"
  by (simp add: nrb_offset_def)

lemma check_note_iff: "check_note pd pn = None \<longleftrightarrow> note_ok pd pn"
  by (simp add: check_note_def note_ok_def nrb_offset_def)

lemma check_note_fault: "check_note pd pn = Some e \<Longrightarrow> e = Abort pd"
  by (auto simp: check_note_def nrb_offset_def split: if_splits)

lemma unat_less_nat: "uint w < k \<Longrightarrow> unat w < nat k"
  by (simp add: zless_nat_eq_int_zless)

lemma note_ok_cong:
  assumes "sect_count pd \<le> sect_count pd'"
    and "\<forall>i < nat (sect_count pd). pSect pd' ! i = pSect pd ! i"
    and "note_ok pd pn"
  shows "note_ok pd' pn"
proof -
  from assms(3) have "uint (sect pn) < sect_count pd" by (simp add: note_ok_def)
  then have "unat (sect pn) < nat (sect_count pd)" by (rule unat_less_nat)
  with assms(2) have "pSect pd' ! unat (sect pn) = pSect pd ! unat (sect pn)" by blast
  with assms(1,3) show ?thesis unfolding note_ok_def by simp
qed

text \<open>Growth of a table keeps the entries in use.\<close>

lemma regrow_length:
  "length tbl = nat cap \<Longrightarrow> 0 \<le> cap \<Longrightarrow> cap \<le> newcap \<Longrightarrow> length (regrow tbl cap newcap z) = nat newcap"
  by (simp add: regrow_def)

lemma regrow_nth:
  "length tbl = nat cap \<Longrightarrow> cap \<le> newcap \<Longrightarrow> i < nat cap \<Longrightarrow> regrow tbl cap newcap z ! i = tbl ! i"
  by (simp add: regrow_def nth_append)

lemma regrow_take:
  "length tbl = nat cap \<Longrightarrow> cap \<le> newcap \<Longrightarrow> n \<le> nat cap \<Longrightarrow>
   take n (regrow tbl cap newcap z) = take n tbl"
  by (simp add: regrow_def)

lemma take_Suc_update:
  "n < length xs \<Longrightarrow> take (Suc n) (xs[n := x]) = take n xs @ [x]"
  by (simp add: take_Suc_conv_app_nth)

text \<open>The shape of a successful append, whatever the capacity.\<close>

lemma nrb_append_shape:
  assumes inv: "doc_inv pd" and ok: "note_ok pd pn" and room: "note_count pd < NRB_MAXNOTE"
  shows "\<exists>pd'. nrb_append pd pn = Inr (1, pd') \<and>
           note_count pd' = note_count pd + 1 \<and>
           notes_of pd' = notes_of pd @ [pn] \<and>
           sect_count pd' = sect_count pd \<and> sect_cap pd' = sect_cap pd \<and>
           pSect pd' = pSect pd \<and>
           note_count pd' \<le> note_cap pd' \<and> note_cap pd' \<le> NRB_MAXNOTE \<and>
           length (pNote pd') = nat (note_cap pd') \<and> doc_inv pd'"
proof -
  have keep: "doc_inv pd'" if r: "sect_count pd' = sect_count pd" "sect_cap pd' = sect_cap pd"
    "pSect pd' = pSect pd" "note_count pd' = note_count pd + 1"
    "notes_of pd' = notes_of pd @ [pn]" "note_count pd' \<le> note_cap pd'"
    "note_cap pd' \<le> NRB_MAXNOTE" "length (pNote pd') = nat (note_cap pd')" for pd'
  proof -
    have "note_ok pd' = note_ok pd"
      by (simp add: note_ok_def fun_eq_iff r)
    moreover have "sections_of pd' = sections_of pd" by (simp add: sections_of_def r)
    ultimately show ?thesis
      using inv ok r unfolding doc_inv_def by simp
  qed
  from inv have nc: "0 \<le> note_count pd" "note_count pd \<le> note_cap pd"
    and cap: "note_cap pd \<le> NRB_MAXNOTE" and len: "length (pNote pd) = nat (note_cap pd)"
    by (simp_all add: doc_inv_def)
  from ok have chk: "check_note pd pn = None" by (simp add: check_note_iff)
  have suc: "nat (note_count pd + 1) = Suc (nat (note_count pd))"
    using nc by simp
  show ?thesis
  proof (cases "note_count pd \<ge> note_cap pd")
    case False
    with nc len have lt: "nat (note_count pd) < length (pNote pd)" by simp
    define pd' where "pd' = pd\<lparr>pNote := (pNote pd)[nat (note_count pd) := pn],
                        note_count := note_count pd + 1\<rparr>"
    have r: "nrb_append pd pn = Inr (1, pd')"
      using chk room False by (simp add: nrb_append_def pd'_def)
    have f: "note_count pd' = note_count pd + 1" "sect_count pd' = sect_count pd"
      "sect_cap pd' = sect_cap pd" "pSect pd' = pSect pd" "note_cap pd' = note_cap pd"
      "pNote pd' = (pNote pd)[nat (note_count pd) := pn]"
      by (simp_all add: pd'_def)
    have n: "notes_of pd' = notes_of pd @ [pn]"
      unfolding notes_of_def f suc using lt by (rule take_Suc_update)
    have l: "length (pNote pd') = nat (note_cap pd')"
      unfolding f using len by simp
    have c: "note_count pd' \<le> note_cap pd'" "note_cap pd' \<le> NRB_MAXNOTE"
      unfolding f using False cap by simp_all
    from keep [of pd'] f n l c have "doc_inv pd'" by simp
    with r f n l c show ?thesis by blast
  next
    case True
    with nc have eq: "note_cap pd = note_count pd" by simp
    define c2 where "c2 = (if note_cap pd * 2 < NRB_NOTEALLOC_INIT then NRB_NOTEALLOC_INIT
                           else note_cap pd * 2)"
    define newcap where "newcap = (if c2 > NRB_MAXNOTE then NRB_MAXNOTE else c2)"
    have nb: "note_cap pd < newcap" "newcap \<le> NRB_MAXNOTE"
      using room eq nc by (auto simp: newcap_def c2_def nrb_consts)
    define tbl where "tbl = regrow (pNote pd) (note_cap pd) newcap zero_note"
    have tl: "length tbl = nat newcap"
      unfolding tbl_def using len nc nb eq by (intro regrow_length) simp_all
    have tt: "take (nat (note_count pd)) tbl = take (nat (note_count pd)) (pNote pd)"
      unfolding tbl_def using len nc nb eq by (intro regrow_take) simp_all
    define pd' where "pd' = pd\<lparr>pNote := tbl[nat (note_count pd) := pn], note_cap := newcap,
                        note_count := note_count pd + 1\<rparr>"
    have r: "nrb_append pd pn = Inr (1, pd')"
      using chk room True
      by (simp add: nrb_append_def Let_def pd'_def tbl_def newcap_def c2_def)
    have f: "note_count pd' = note_count pd + 1" "sect_count pd' = sect_count pd"
      "sect_cap pd' = sect_cap pd" "pSect pd' = pSect pd" "note_cap pd' = newcap"
      "pNote pd' = tbl[nat (note_count pd) := pn]"
      by (simp_all add: pd'_def)
    have lt: "nat (note_count pd) < length tbl" using tl nb eq nc by simp
    have n: "notes_of pd' = notes_of pd @ [pn]"
      unfolding notes_of_def f suc using take_Suc_update [OF lt, of pn] tt by simp
    have l: "length (pNote pd') = nat (note_cap pd')"
      unfolding f using tl by simp
    have c: "note_count pd' \<le> note_cap pd'" "note_cap pd' \<le> NRB_MAXNOTE"
      unfolding f using nb eq by simp_all
    from keep [of pd'] f n l c have "doc_inv pd'" by simp
    with r f n l c show ?thesis by blast
  qed
qed

lemma sorted_wrt_le_last:
  assumes "sorted_wrt (\<lambda>a b. f a \<le> (f b :: int)) xs" and "x \<in> set xs"
  shows "f x \<le> f (last xs)"
  using assms
proof (induction xs)
  case Nil then show ?case by simp
next
  case (Cons y ys)
  then show ?case by auto
qed

lemma sect_table_inv_snoc:
  assumes "sect_table_inv vs" and "0 \<le> sint off" and "sint (last vs) \<le> sint off"
  shows "sect_table_inv (vs @ [off])"
proof -
  from assms(1) have ne: "vs \<noteq> []" and hd: "hd vs = 0" and nn: "\<forall>v \<in> set vs. 0 \<le> sint v"
    and so: "sorted_wrt (\<lambda>a b. sint a \<le> sint b) vs"
    by (simp_all add: sect_table_inv_def)
  have "\<forall>x \<in> set vs. sint x \<le> sint off"
    using sorted_wrt_le_last [OF so] assms(3) by force
  with ne hd nn so assms(2) show ?thesis
    by (simp add: sect_table_inv_def sorted_wrt_append)
qed

lemma last_sections_of:
  assumes "doc_inv pd"
  shows "last (sections_of pd) = pSect pd ! nat (sect_count pd - 1)"
proof -
  from assms have a: "1 \<le> sect_count pd" "sect_count pd \<le> sect_cap pd"
    "length (pSect pd) = nat (sect_cap pd)" by (simp_all add: doc_inv_def)
  then have l: "length (sections_of pd) = nat (sect_count pd)"
    by (simp add: sections_of_def)
  with a have "sections_of pd \<noteq> []" by auto
  then have "last (sections_of pd) = sections_of pd ! (length (sections_of pd) - 1)"
    by (rule last_conv_nth)
  also have "\<dots> = pSect pd ! (nat (sect_count pd) - 1)"
    unfolding l using a by (simp add: sections_of_def)
  also have "nat (sect_count pd) - 1 = nat (sect_count pd - 1)" using a by simp
  finally show ?thesis .
qed

lemma nrb_sect_shape:
  assumes inv: "doc_inv pd" and nn: "0 \<le> sint off"
    and ord: "sint (last (sections_of pd)) \<le> sint off"
    and room: "sect_count pd < NRB_MAXSECT"
  shows "\<exists>pd'. nrb_sect pd off = Inr (1, pd') \<and>
           sect_count pd' = sect_count pd + 1 \<and>
           sections_of pd' = sections_of pd @ [off] \<and>
           note_count pd' = note_count pd \<and> note_cap pd' = note_cap pd \<and>
           pNote pd' = pNote pd \<and> doc_inv pd'"
proof -
  from inv have sc: "1 \<le> sect_count pd" "sect_count pd \<le> sect_cap pd"
    and cap: "sect_cap pd \<le> NRB_MAXSECT" and len: "length (pSect pd) = nat (sect_cap pd)"
    and ti: "sect_table_inv (sections_of pd)"
    by (simp_all add: doc_inv_def)
  have suc: "nat (sect_count pd + 1) = Suc (nat (sect_count pd))"
    using sc by simp
  have off: "nrb_offset pd (sect_count pd - 1) = Inr (last (sections_of pd))"
    using sc by (simp add: nrb_offset_def last_sections_of [OF inv])
  have keep: "doc_inv pd'" if r: "sect_count pd' = sect_count pd + 1"
    "sections_of pd' = sections_of pd @ [off]" "note_count pd' = note_count pd"
    "note_cap pd' = note_cap pd" "pNote pd' = pNote pd" "sect_count pd' \<le> sect_cap pd'"
    "sect_cap pd' \<le> NRB_MAXSECT" "length (pSect pd') = nat (sect_cap pd')" for pd'
  proof -
    have nth: "\<forall>i < nat (sect_count pd). pSect pd' ! i = pSect pd ! i"
    proof (intro allI impI)
      fix i assume i: "i < nat (sect_count pd)"
      then have "pSect pd' ! i = sections_of pd' ! i"
        unfolding sections_of_def r(1) suc by simp
      also have "\<dots> = sections_of pd ! i"
        unfolding r(2) using i sc len by (simp add: nth_append sections_of_def)
      also have "\<dots> = pSect pd ! i" using i by (simp add: sections_of_def)
      finally show "pSect pd' ! i = pSect pd ! i" .
    qed
    have "\<forall>pn \<in> set (notes_of pd'). note_ok pd' pn"
    proof
      fix pn assume "pn \<in> set (notes_of pd')"
      then have "pn \<in> set (notes_of pd)" by (simp add: notes_of_def r)
      with inv have "note_ok pd pn" by (simp add: doc_inv_def)
      then show "note_ok pd' pn"
        using nth r(1) by (intro note_ok_cong [of pd pd']) simp_all
    qed
    moreover have "sect_table_inv (sections_of pd')"
      unfolding r(2) using ti nn ord by (rule sect_table_inv_snoc)
    ultimately show ?thesis
      using inv r unfolding doc_inv_def by simp
  qed
  show ?thesis
  proof (cases "sect_count pd \<ge> sect_cap pd")
    case False
    with sc len have lt: "nat (sect_count pd) < length (pSect pd)" by simp
    define pd' where "pd' = pd\<lparr>pSect := (pSect pd)[nat (sect_count pd) := off],
                        sect_count := sect_count pd + 1\<rparr>"
    have r: "nrb_sect pd off = Inr (1, pd')"
      using nn ord room False off by (simp add: nrb_sect_def pd'_def)
    have f: "sect_count pd' = sect_count pd + 1" "note_count pd' = note_count pd"
      "note_cap pd' = note_cap pd" "pNote pd' = pNote pd" "sect_cap pd' = sect_cap pd"
      "pSect pd' = (pSect pd)[nat (sect_count pd) := off]"
      by (simp_all add: pd'_def)
    have n: "sections_of pd' = sections_of pd @ [off]"
      unfolding sections_of_def f suc using lt by (rule take_Suc_update)
    have l: "length (pSect pd') = nat (sect_cap pd')"
      unfolding f using len by simp
    have c: "sect_count pd' \<le> sect_cap pd'" "sect_cap pd' \<le> NRB_MAXSECT"
      unfolding f using False cap by simp_all
    from keep [of pd'] f n l c have "doc_inv pd'" by simp
    with r f n show ?thesis by blast
  next
    case True
    with sc have eq: "sect_cap pd = sect_count pd" by simp
    define c2 where "c2 = (if sect_cap pd * 2 < NRB_SECTALLOC_INIT then NRB_SECTALLOC_INIT
                           else sect_cap pd * 2)"
    define newcap where "newcap = (if c2 > NRB_MAXSECT then NRB_MAXSECT else c2)"
    have nb: "sect_cap pd < newcap" "newcap \<le> NRB_MAXSECT"
      using room eq sc by (auto simp: newcap_def c2_def nrb_consts)
    define tbl where "tbl = regrow (pSect pd) (sect_cap pd) newcap 0"
    have tl: "length tbl = nat newcap"
      unfolding tbl_def using len sc nb eq by (intro regrow_length) simp_all
    have tt: "take (nat (sect_count pd)) tbl = take (nat (sect_count pd)) (pSect pd)"
      unfolding tbl_def using len sc nb eq by (intro regrow_take) simp_all
    define pd' where "pd' = pd\<lparr>pSect := tbl[nat (sect_count pd) := off], sect_cap := newcap,
                        sect_count := sect_count pd + 1\<rparr>"
    have r: "nrb_sect pd off = Inr (1, pd')"
      using nn ord room True off
      by (simp add: nrb_sect_def Let_def pd'_def tbl_def newcap_def c2_def)
    have f: "sect_count pd' = sect_count pd + 1" "note_count pd' = note_count pd"
      "note_cap pd' = note_cap pd" "pNote pd' = pNote pd" "sect_cap pd' = newcap"
      "pSect pd' = tbl[nat (sect_count pd) := off]"
      by (simp_all add: pd'_def)
    have lt: "nat (sect_count pd) < length tbl" using tl nb eq sc by simp
    have n: "sections_of pd' = sections_of pd @ [off]"
      unfolding sections_of_def f suc using take_Suc_update [OF lt, of off] tt by simp
    have l: "length (pSect pd') = nat (sect_cap pd')"
      unfolding f using tl by simp
    have c: "sect_count pd' \<le> sect_cap pd'" "sect_cap pd' \<le> NRB_MAXSECT"
      unfolding f using nb eq by simp_all
    from keep [of pd'] f n l c have "doc_inv pd'" by simp
    with r f n show ?thesis by blast
  qed
qed

lemma note_ok_same_sections:
  "sect_count pd' = sect_count pd \<Longrightarrow> pSect pd' = pSect pd \<Longrightarrow> note_ok pd' pn = note_ok pd pn"
  by (simp add: note_ok_def)

lemma nrb_append_full:
  assumes "note_ok pd pn" and "\<not> note_count pd < NRB_MAXNOTE"
  shows "nrb_append pd pn = Inr (0, pd)"
  using assms by (simp add: nrb_append_def check_note_iff [THEN iffD2])

lemma nrb_sect_full:
  assumes "0 \<le> sint off" and "1 \<le> sect_count pd"
    and "sint (pSect pd ! nat (sect_count pd - 1)) \<le> sint off"
    and "\<not> sect_count pd < NRB_MAXSECT"
  shows "nrb_sect pd off = Inr (0, pd)"
  using assms by (simp add: nrb_sect_def nrb_offset_def)

lemma nrb_append_inv:
  assumes inv: "doc_inv pd" and r: "nrb_append pd pn = Inr (st, pd')"
  shows "doc_inv pd'"
proof -
  from r have ok: "note_ok pd pn"
    by (auto simp: nrb_append_def check_note_iff [symmetric] split: option.splits)
  show ?thesis
  proof (cases "note_count pd < NRB_MAXNOTE")
    case True
    from nrb_append_shape [OF inv ok True] r show ?thesis by auto
  next
    case False
    from nrb_append_full [OF ok False] r inv show ?thesis by simp
  qed
qed

lemma nrb_sect_inv:
  assumes inv: "doc_inv pd" and r: "nrb_sect pd off = Inr (st, pd')"
  shows "doc_inv pd'"
proof -
  from inv have sc: "1 \<le> sect_count pd" by (simp add: doc_inv_def)
  then have off: "nrb_offset pd (sect_count pd - 1) = Inr (last (sections_of pd))"
    by (simp add: nrb_offset_def last_sections_of [OF inv])
  from r off have nn: "0 \<le> sint off" and ord: "sint (last (sections_of pd)) \<le> sint off"
    by (auto simp: nrb_sect_def split: if_splits)
  show ?thesis
  proof (cases "sect_count pd < NRB_MAXSECT")
    case True
    from nrb_sect_shape [OF inv nn ord True] r show ?thesis by auto
  next
    case False
    have "nrb_sect pd off = Inr (0, pd)"
      using nn sc ord False by (intro nrb_sect_full) (simp_all add: last_sections_of [OF inv])
    with r inv show ?thesis by simp
  qed
qed

lemma nrb_set_inv:
  assumes inv: "doc_inv pd" and r: "nrb_set pd i pn = Inr pd'"
  shows "doc_inv pd'"
proof -
  from r have i: "0 \<le> i" "i < note_count pd" and ok: "note_ok pd pn"
    and pd': "pd' = pd\<lparr>pNote := (pNote pd)[nat i := pn]\<rparr>"
    by (auto simp: nrb_set_def check_note_iff [symmetric] split: if_splits option.splits)
  have ok': "note_ok pd' = note_ok pd"
    by (simp add: fun_eq_iff note_ok_def pd')
  have "notes_of pd' = (notes_of pd)[nat i := pn]"
    by (simp add: notes_of_def pd' take_update_swap)
  then have "set (notes_of pd') \<subseteq> insert pn (set (notes_of pd))"
    by (simp add: set_update_subset_insert)
  with inv ok have "\<forall>n \<in> set (notes_of pd'). note_ok pd' n"
    unfolding ok' doc_inv_def by blast
  moreover have "sections_of pd' = sections_of pd" by (simp add: sections_of_def pd')
  ultimately show ?thesis
    using inv unfolding doc_inv_def by (simp add: pd')
qed

lemma nrb_sort_notes:
  assumes inv: "doc_inv pd" and q: "qsort_contract qs" and r: "nrb_sort qs pd = Inr pd'"
  shows "mset (notes_of pd') = mset (notes_of pd) \<and> note_count pd' = note_count pd \<and>
         note_cap pd' = note_cap pd \<and> length (pNote pd') = length (pNote pd) \<and>
         sect_count pd' = sect_count pd \<and> sect_cap pd' = sect_cap pd \<and> pSect pd' = pSect pd \<and>
         (1 < note_count pd \<longrightarrow> sorted_wrt (\<lambda>a b. \<exists>r. nrb_cmp a b = Inr r \<and> r \<le> 0) (notes_of pd'))"
proof (cases "1 < note_count pd")
  case False
  with r show ?thesis by (simp add: nrb_sort_def)
next
  case True
  from q obtain ys where ys: "qs nrb_cmp (notes_of pd) = Inr ys" "mset ys = mset (notes_of pd)"
    "sorted_wrt (\<lambda>a b. \<exists>r. nrb_cmp a b = Inr r \<and> r \<le> 0) ys"
    unfolding qsort_contract_def by blast
  from r True ys(1) have pd': "pd' = pd\<lparr>pNote := ys @ drop (nat (note_count pd)) (pNote pd)\<rparr>"
    by (simp add: nrb_sort_def notes_of_def)
  from inv have len: "length (pNote pd) = nat (note_cap pd)" "note_count pd \<le> note_cap pd"
    by (simp_all add: doc_inv_def)
  from ys(2) have "length ys = length (notes_of pd)" by (rule mset_eq_length)
  with len True have ly: "length ys = nat (note_count pd)" by (simp add: notes_of_def)
  then have "notes_of pd' = ys" by (simp add: notes_of_def pd')
  moreover have "length (pNote pd') = length (pNote pd)"
    using ly len by (simp add: pd')
  ultimately show ?thesis using ys by (simp add: pd')
qed

lemma nrb_sort_inv:
  assumes inv: "doc_inv pd" and q: "qsort_contract qs" and r: "nrb_sort qs pd = Inr pd'"
  shows "doc_inv pd'"
proof -
  note f = nrb_sort_notes [OF assms]
  have ok': "note_ok pd' = note_ok pd"
    using f by (simp add: fun_eq_iff note_ok_def)
  from f have "set (notes_of pd') = set (notes_of pd)" by (metis mset_eq_setD)
  moreover have "sections_of pd' = sections_of pd" using f by (simp add: sections_of_def)
  ultimately show ?thesis
    using inv f unfolding doc_inv_def ok' by simp
qed

lemma sections_of_alloc: "sections_of nrb_alloc = [0]"
proof -
  have "(16::nat) = Suc 15" by simp
  then have "replicate 16 (0::64 word) = 0 # replicate 15 0" by (simp only: replicate_Suc)
  then show ?thesis by (simp add: sections_of_def nrb_alloc_def nrb_consts)
qed

lemma notes_of_alloc: "notes_of nrb_alloc = []"
  by (simp add: notes_of_def nrb_alloc_def)

lemma doc_inv_alloc: "doc_inv nrb_alloc"
  unfolding doc_inv_def sections_of_alloc notes_of_alloc
  by (simp add: nrb_alloc_def sect_table_inv_def nrb_consts)

lemma append_all_ok:
  assumes "doc_inv pd" and "\<forall>n \<in> set ns. note_ok pd n"
    and "note_count pd + int (length ns) \<le> NRB_MAXNOTE"
  shows "\<exists>pd'. append_all pd ns = Inr (replicate (length ns) 1, pd') \<and>
           note_count pd' = note_count pd + int (length ns) \<and>
           notes_of pd' = notes_of pd @ ns \<and>
           sect_count pd' = sect_count pd \<and> pSect pd' = pSect pd \<and> doc_inv pd'"
  using assms
proof (induction ns arbitrary: pd)
  case Nil
  then show ?case by simp
next
  case (Cons n ns)
  from Cons.prems have ok: "note_ok pd n" and room: "note_count pd < NRB_MAXNOTE"
    by simp_all
  from nrb_append_shape [OF Cons.prems(1) ok room]
  obtain pd1 where pd1: "nrb_append pd n = Inr (1, pd1)" "note_count pd1 = note_count pd + 1"
    "notes_of pd1 = notes_of pd @ [n]" "sect_count pd1 = sect_count pd" "pSect pd1 = pSect pd"
    "doc_inv pd1" by blast
  have "\<forall>m \<in> set ns. note_ok pd1 m"
    using Cons.prems(2) note_ok_same_sections [OF pd1(4,5)] by simp
  moreover have "note_count pd1 + int (length ns) \<le> NRB_MAXNOTE"
    using Cons.prems(3) pd1(2) by simp
  ultimately obtain pd' where pd': "append_all pd1 ns = Inr (replicate (length ns) 1, pd')"
    "note_count pd' = note_count pd1 + int (length ns)" "notes_of pd' = notes_of pd1 @ ns"
    "sect_count pd' = sect_count pd1" "pSect pd' = pSect pd1" "doc_inv pd'"
    using Cons.IH [OF pd1(6)] by blast
  have "append_all pd (n # ns) = Inr (replicate (length (n # ns)) 1, pd')"
    using pd1(1) pd'(1) by simp
  moreover have "note_count pd' = note_count pd + int (length (n # ns))"
    using pd1(2) pd'(2) by simp
  moreover have "notes_of pd' = notes_of pd @ n # ns"
    using pd1(3) pd'(3) by simp
  ultimately show ?case using pd1 pd' by simp
qed

lemma sect_all_ok:
  assumes "doc_inv pd" and "sorted_wrt (\<lambda>a b. sint a \<le> sint b) (last (sections_of pd) # offs)"
    and "sect_count pd + int (length offs) \<le> NRB_MAXSECT"
  shows "\<exists>pd'. sect_all pd offs = Inr (replicate (length offs) 1, pd') \<and>
           sect_count pd' = sect_count pd + int (length offs) \<and>
           sections_of pd' = sections_of pd @ offs \<and>
           note_count pd' = note_count pd \<and> pNote pd' = pNote pd \<and> doc_inv pd'"
  using assms
proof (induction offs arbitrary: pd)
  case Nil
  then show ?case by simp
next
  case (Cons off offs)
  from Cons.prems(1) have ti: "sect_table_inv (sections_of pd)" by (simp add: doc_inv_def)
  then have "0 \<le> sint (last (sections_of pd))" by (simp add: sect_table_inv_def)
  with Cons.prems have nn: "0 \<le> sint off" and ord: "sint (last (sections_of pd)) \<le> sint off"
    and room: "sect_count pd < NRB_MAXSECT"
    by simp_all
  from nrb_sect_shape [OF Cons.prems(1) nn ord room]
  obtain pd1 where pd1: "nrb_sect pd off = Inr (1, pd1)" "sect_count pd1 = sect_count pd + 1"
    "sections_of pd1 = sections_of pd @ [off]" "note_count pd1 = note_count pd"
    "pNote pd1 = pNote pd" "doc_inv pd1" by blast
  have "sorted_wrt (\<lambda>a b. sint a \<le> sint b) (last (sections_of pd1) # offs)"
    using Cons.prems(2) pd1(3) by simp
  moreover have "sect_count pd1 + int (length offs) \<le> NRB_MAXSECT"
    using Cons.prems(3) pd1(2) by simp
  ultimately obtain pd' where pd': "sect_all pd1 offs = Inr (replicate (length offs) 1, pd')"
    "sect_count pd' = sect_count pd1 + int (length offs)"
    "sections_of pd' = sections_of pd1 @ offs"
    "note_count pd' = note_count pd1" "pNote pd' = pNote pd1" "doc_inv pd'"
    using Cons.IH [OF pd1(6)] by blast
  have "sect_all pd (off # offs) = Inr (replicate (length (off # offs)) 1, pd')"
    using pd1(1) pd'(1) by simp
  moreover have "sect_count pd' = sect_count pd + int (length (off # offs))"
    using pd1(2) pd'(2) by simp
  moreover have "sections_of pd' = sections_of pd @ off # offs"
    using pd1(3) pd'(3) by simp
  ultimately show ?case using pd1 pd' by simp
qed

lemma nrb_get_notes_of:
  "0 \<le> i \<Longrightarrow> i < note_count pd \<Longrightarrow> nrb_get pd i = Inr (notes_of pd ! nat i)"
  by (simp add: nrb_get_def notes_of_def)

lemma nrb_offset_sections_of:
  "0 \<le> i \<Longrightarrow> i < sect_count pd \<Longrightarrow> nrb_offset pd i = Inr (sections_of pd ! nat i)"
  by (simp add: nrb_offset_def sections_of_def)

section \<open>Properties of the parser\<close>

lemma odd_div_iff:
  fixes k m :: int
  assumes "0 \<le> k" and "k < 2 * m"
  shows "odd (k div m) \<longleftrightarrow> m \<le> k"
proof (cases "k < m")
  case True
  with assms have "k div m = 0" by (simp add: div_pos_pos_trivial)
  with True show ?thesis by simp
next
  case False
  with assms have m: "0 < m" by linarith
  from False assms have "(k - m) div m = 0" by (simp add: div_pos_pos_trivial)
  moreover have "k div m = (k - m) div m + 1"
    using m div_add_self1 [of m "k - m"] by simp
  ultimately have "k div m = 1" by simp
  with False show ?thesis by simp
qed

lemma msb64: "(v :: 64 word) > NRB_MAXUINT64 \<longleftrightarrow> sint v < 0"
proof -
  have b: "uint v < 18446744073709551616" using uint_bounded [of v] by simp
  have z: "0 \<le> uint v" by simp
  have "sint v < 0 \<longleftrightarrow> bit v 63"
    using bit_last_iff [of v] by simp
  also have "\<dots> \<longleftrightarrow> bit (uint v) 63"
    by (simp add: bit_uint_iff)
  also have "\<dots> \<longleftrightarrow> odd (uint v div 2 ^ 63)"
    by (rule bit_iff_odd)
  also have "\<dots> \<longleftrightarrow> 9223372036854775808 \<le> uint v"
    using odd_div_iff [OF z, of "2 ^ 63"] b by simp
  also have "\<dots> \<longleftrightarrow> 9223372036854775807 < uint v"
    by linarith
  also have "\<dots> \<longleftrightarrow> NRB_MAXUINT64 < v"
    by (simp add: word_less_alt NRB_MAXUINT64_def)
  finally show ?thesis by simp
qed

lemma msb32: "(v :: 32 word) > NRB_MAXUINT32 \<longleftrightarrow> bit v 31"
proof -
  have b: "uint v < 4294967296" using uint_bounded [of v] by simp
  have z: "0 \<le> uint v" by simp
  have "bit v 31 \<longleftrightarrow> bit (uint v) 31"
    by (simp add: bit_uint_iff)
  also have "\<dots> \<longleftrightarrow> odd (uint v div 2 ^ 31)"
    by (rule bit_iff_odd)
  also have "\<dots> \<longleftrightarrow> 2147483648 \<le> uint v"
    using odd_div_iff [OF z, of "2 ^ 31"] b by simp
  also have "\<dots> \<longleftrightarrow> 2147483647 < uint v"
    by linarith
  also have "\<dots> \<longleftrightarrow> NRB_MAXUINT32 < v"
    by (simp add: word_less_alt NRB_MAXUINT32_def)
  finally show ?thesis by simp
qed

lemma max16: "\<not> (v :: 16 word) > NRB_MAXUINT16"
proof -
  have "uint v < 65536" using uint_bounded [of v] by simp
  then show ?thesis by (simp add: word_less_alt NRB_MAXUINT16_def)
qed

lemma readByte_cons [simp]: "nrb_readByte (b # t) = (uint b, t)"
  by (simp add: nrb_readByte_def)

lemma readByte_nil [simp]: "nrb_readByte [] = (- 1, [])"
  by (simp add: nrb_readByte_def)

lemma readByte_app:
  "0 \<le> fst (nrb_readByte pf) \<Longrightarrow>
   nrb_readByte (pf @ e) = (fst (nrb_readByte pf), snd (nrb_readByte pf) @ e)"
  by (cases pf) simp_all

lemma read_loop_status: "fst (nrb_read_loop n pv pf) = (if n \<le> length pf then 1 else 0)"
  using read_loop_long [of n pf pv] read_loop_short [of pf n pv] by auto

lemma read_loop_app:
  assumes "fst (nrb_read_loop n pv pf) \<noteq> 0"
  shows "nrb_read_loop n pv (pf @ e) =
           (1, fst (snd (nrb_read_loop n pv pf)), snd (snd (nrb_read_loop n pv pf)) @ e)"
proof -
  from assms have "n \<le> length pf" by (simp add: read_loop_status split: if_splits)
  then show ?thesis by (simp add: read_loop_long)
qed

lemma sint_minus1_64: "sint (- 1 :: 64 word) = - 1"
  by simp

lemma readUint64_be64:
  "nrb_readUint64 (be64 v @ t) = (if sint v < 0 then - 1 else v, t)"
  by (simp add: nrb_readUint64_def read64_be64 msb64)

lemma readUint32_be32:
  "nrb_readUint32 (be32 v @ t) = (if v > NRB_MAXUINT32 then - 1 else uint v, t)"
  by (simp add: nrb_readUint32_def read32_be32)

lemma readUint16_be16: "nrb_readUint16 (be16 v @ t) = (uint v, t)"
  by (simp add: nrb_readUint16_def read16_be16 max16)

lemma readUint64_short: "length pf < 8 \<Longrightarrow> nrb_readUint64 pf = (- 1, [])"
  using read_loop_short [of pf 8 "0 :: 64 word"]
  by (cases "nrb_read_loop 8 (0 :: 64 word) pf")
     (simp add: nrb_readUint64_def nrb_read64_def)

lemma readUint32_short: "length pf < 4 \<Longrightarrow> nrb_readUint32 pf = (- 1, [])"
  using read_loop_short [of pf 4 "0 :: 32 word"]
  by (cases "nrb_read_loop 4 (0 :: 32 word) pf")
     (simp add: nrb_readUint32_def nrb_read32_def)

lemma readUint16_short: "length pf < 2 \<Longrightarrow> nrb_readUint16 pf = (- 1, [])"
  using read_loop_short [of pf 2 "0 :: 16 word"]
  by (cases "nrb_read_loop 2 (0 :: 16 word) pf")
     (simp add: nrb_readUint16_def nrb_read16_def)

lemma readUint64_app:
  assumes "0 \<le> sint (fst (nrb_readUint64 pf))"
  shows "nrb_readUint64 (pf @ e) = (fst (nrb_readUint64 pf), snd (nrb_readUint64 pf) @ e)"
proof -
  have "8 \<le> length pf"
  proof (rule ccontr)
    assume "\<not> 8 \<le> length pf"
    then have "nrb_readUint64 pf = (- 1, [])" by (simp add: readUint64_short)
    with assms show False by simp
  qed
  then show ?thesis
    by (simp add: nrb_readUint64_def nrb_read64_def read_loop_long)
qed

lemma readUint32_app:
  assumes "0 \<le> fst (nrb_readUint32 pf)"
  shows "nrb_readUint32 (pf @ e) = (fst (nrb_readUint32 pf), snd (nrb_readUint32 pf) @ e)"
proof -
  have "4 \<le> length pf"
  proof (rule ccontr)
    assume "\<not> 4 \<le> length pf"
    then have "fst (nrb_readUint32 pf) = - 1"
      by (simp add: readUint32_short)
    with assms show False by simp
  qed
  then show ?thesis
    by (simp add: nrb_readUint32_def nrb_read32_def read_loop_long)
qed

lemma readUint16_app:
  assumes "0 \<le> fst (nrb_readUint16 pf)"
  shows "nrb_readUint16 (pf @ e) = (fst (nrb_readUint16 pf), snd (nrb_readUint16 pf) @ e)"
proof -
  have "2 \<le> length pf"
  proof (rule ccontr)
    assume "\<not> 2 \<le> length pf"
    then have "fst (nrb_readUint16 pf) = - 1"
      by (simp add: readUint16_short)
    with assms show False by simp
  qed
  then show ?thesis
    by (simp add: nrb_readUint16_def nrb_read16_def read_loop_long)
qed

lemma readBias8_cons: "nrb_readBias8 (b # t) = Inr (1, uint b - 128, t)"
proof -
  have "uint b < 256" using uint_bounded [of b] by simp
  then show ?thesis by (simp add: nrb_readBias8_def nrb_consts)
qed

lemma readBias8_nil: "nrb_readBias8 [] = Inr (0, 0, [])"
  by (simp add: nrb_readBias8_def)

lemmas read_app = readByte_app readUint64_app readUint32_app readUint16_app

lemma parse_version_app:
  assumes "parse_version pf = (ver, True, r)"
  shows "parse_version (pf @ e) = (ver, True, r @ e)"
  using assms unfolding parse_version_def
  by (auto simp: read_app NRB_SIGPRI_def NRB_SIGSEC_def split: prod.splits if_splits)

lemma parse_counts_app:
  assumes "parse_counts pf = (Some c, r)"
  shows "parse_counts (pf @ e) = (Some c, r @ e)"
  using assms unfolding parse_counts_def
  by (auto simp: read_app split: prod.splits if_splits)

lemma parse_reserved_app:
  assumes "parse_reserved pf = (True, r)"
  shows "parse_reserved (pf @ e) = (True, r @ e)"
  using assms unfolding parse_reserved_def
  by (auto simp: read_app split: prod.splits if_splits)

lemma parse_sect_loop_app:
  assumes "parse_sect_loop k i ps pf = (Some ps', r)" and "i + k \<le> length ps"
  shows "parse_sect_loop k i ps (pf @ e) = (Some ps', r @ e)"
  using assms
proof (induction k arbitrary: i ps pf)
  case 0
  then show ?case by simp
next
  case (Suc k)
  obtain v pf1 where rd: "nrb_readUint64 pf = (v, pf1)" by (cases "nrb_readUint64 pf")
  from Suc.prems have il: "i < length ps" by simp
  from Suc.prems rd il have nn: "0 \<le> sint v"
    by (auto simp: Let_def split: if_splits)
  with rd have rd': "nrb_readUint64 (pf @ e) = (v, pf1 @ e)"
    using readUint64_app [of pf e] by simp
  from Suc.prems rd il nn have "parse_sect_loop k (Suc i) (ps[i := v]) pf1 = (Some ps', r)"
    by (auto simp: Let_def split: if_splits)
  moreover from Suc.prems have "Suc i + k \<le> length (ps[i := v])" by simp
  ultimately have "parse_sect_loop k (Suc i) (ps[i := v]) (pf1 @ e) = (Some ps', r @ e)"
    by (rule Suc.IH)
  with Suc.prems rd il nn show ?case
    by (auto simp: rd' Let_def split: if_splits)
qed

lemma readBias8_app:
  assumes "nrb_readBias8 pf = Inr (st, v, r)" and "st \<noteq> 0"
  shows "nrb_readBias8 (pf @ e) = Inr (st, v, r @ e)"
  using assms by (cases pf) (simp_all add: readBias8_cons readBias8_nil)

lemma parse_note_app:
  assumes "parse_note sc ps pf = Inr (Some n, r)"
  shows "parse_note sc ps (pf @ e) = Inr (Some n, r @ e)"
proof -
  obtain st pf1 where r1: "nrb_readUint64 pf = (st, pf1)" by (cases "nrb_readUint64 pf")
  obtain rl pf2 where r2: "nrb_readUint64 pf1 = (rl, pf2)" by (cases "nrb_readUint64 pf1")
  from assms r1 have c1: "0 \<le> sint st"
    by (auto simp: parse_note_def split: if_splits)
  from assms r1 r2 c1 have c2: "sint st < sint rl"
    by (auto simp: parse_note_def split: if_splits)
  from c1 c2 have c2': "0 \<le> sint rl" by simp
  have a1: "nrb_readUint64 (pf @ e) = (st, pf1 @ e)"
    using readUint64_app [of pf e] r1 c1 by simp
  have a2: "nrb_readUint64 (pf1 @ e) = (rl, pf2 @ e)"
    using readUint64_app [of pf1 e] r2 c2' by simp
  obtain ok v pf3 where r3: "nrb_readBias8 pf2 = Inr (ok, v, pf3)"
    using assms r1 r2 c1 c2
    by (cases "nrb_readBias8 pf2") (auto simp: parse_note_def)
  from assms r1 r2 r3 c1 c2 have c3: "ok \<noteq> 0"
    by (auto simp: parse_note_def split: if_splits)
  have a3: "nrb_readBias8 (pf2 @ e) = Inr (ok, v, pf3 @ e)"
    using r3 c3 by (rule readBias8_app)
  from assms r1 r2 r3 c1 c2 c3 show ?thesis
    by (auto simp: parse_note_def a1 a2 a3 read_app split: prod.splits if_splits)
qed

lemma parse_note_loop_app:
  assumes "parse_note_loop k i sc ps pn pf = Inr (Some pn', r)"
  shows "parse_note_loop k i sc ps pn (pf @ e) = Inr (Some pn', r @ e)"
  using assms
proof (induction k arbitrary: i pn pf)
  case 0
  then show ?case by simp
next
  case (Suc k)
  from Suc.prems obtain n pf1 where n: "parse_note sc ps pf = Inr (Some n, pf1)"
    and rest: "parse_note_loop k (Suc i) sc ps (pn[i := n]) pf1 = Inr (Some pn', r)"
    by (auto split: sum.splits option.splits prod.splits)
  from parse_note_app [OF n] Suc.IH [OF rest] show ?case
    by simp
qed

lemma nrb_parse_success:
  assumes "nrb_parse pf = Inr (ver, Some pd, r)"
  obtains pf1 sc nc pf2 pf3 ps pf4 pn where
    "parse_version pf = (ver, True, pf1)"
    "parse_counts pf1 = (Some (sc, nc), pf2)"
    "parse_reserved pf2 = (True, pf3)"
    "parse_sect_loop (nat sc) 0 (replicate (nat sc) 0) pf3 = (Some ps, pf4)"
    "parse_note_loop (nat nc) 0 sc ps (replicate (nat nc) zero_note) pf4 = Inr (Some pn, r)"
    "pd = \<lparr>sect_count = sc, sect_cap = sc, note_count = nc, note_cap = nc,
            pSect = ps, pNote = pn\<rparr>"
proof -
  obtain ver0 ok pf1 where v0: "parse_version pf = (ver0, ok, pf1)"
    by (cases "parse_version pf") auto
  with assms have ok: "ok"
    unfolding nrb_parse_def by (cases ok) auto
  from assms v0 ok have ver0: "ver0 = ver"
    unfolding nrb_parse_def
    by (auto split: prod.splits option.splits sum.splits bool.splits)
  obtain cs pf2 where c0: "parse_counts pf1 = (cs, pf2)" by (cases "parse_counts pf1")
  with assms v0 ok obtain sc nc where cs: "cs = Some (sc, nc)"
    unfolding nrb_parse_def by (cases cs) auto
  obtain rok pf3 where r0: "parse_reserved pf2 = (rok, pf3)" by (cases "parse_reserved pf2")
  with assms v0 ok c0 cs have rok: "rok"
    unfolding nrb_parse_def by (cases rok) auto
  obtain pso pf4 where s0: "parse_sect_loop (nat sc) 0 (replicate (nat sc) 0) pf3 = (pso, pf4)"
    by (cases "parse_sect_loop (nat sc) 0 (replicate (nat sc) 0) pf3")
  with assms v0 ok c0 cs r0 rok obtain ps where ps: "pso = Some ps"
    unfolding nrb_parse_def by (cases pso) auto
  from assms v0 ok ver0 c0 cs r0 rok s0 ps obtain pn where
    "parse_note_loop (nat nc) 0 sc ps (replicate (nat nc) zero_note) pf4 = Inr (Some pn, r)"
    "pd = \<lparr>sect_count = sc, sect_cap = sc, note_count = nc, note_cap = nc,
            pSect = ps, pNote = pn\<rparr>"
    unfolding nrb_parse_def
    by (auto split: prod.splits option.splits sum.splits bool.splits)
  with v0 ok ver0 c0 cs r0 rok s0 ps show thesis
    by (intro that) simp_all
qed

lemma nrb_parse_app:
  assumes "nrb_parse pf = Inr (ver, Some pd, r)"
  shows "nrb_parse (pf @ e) = Inr (ver, Some pd, r @ e)"
proof -
  from assms obtain pf1 sc nc pf2 pf3 ps pf4 pn where
    v: "parse_version pf = (ver, True, pf1)" and
    c: "parse_counts pf1 = (Some (sc, nc), pf2)" and
    rs: "parse_reserved pf2 = (True, pf3)" and
    s: "parse_sect_loop (nat sc) 0 (replicate (nat sc) 0) pf3 = (Some ps, pf4)" and
    n: "parse_note_loop (nat nc) 0 sc ps (replicate (nat nc) zero_note) pf4 = Inr (Some pn, r)" and
    pd: "pd = \<lparr>sect_count = sc, sect_cap = sc, note_count = nc, note_cap = nc,
               pSect = ps, pNote = pn\<rparr>"
    by (rule nrb_parse_success)
  have s': "parse_sect_loop (nat sc) 0 (replicate (nat sc) 0) (pf3 @ e) = (Some ps, pf4 @ e)"
    using s by (rule parse_sect_loop_app) simp
  show ?thesis
    unfolding nrb_parse_def
    by (simp add: parse_version_app [OF v] parse_counts_app [OF c] parse_reserved_app [OF rs]
        s' parse_note_loop_app [OF n] pd)
qed

lemma sint_byte_of_int:
  "- 128 \<le> v \<Longrightarrow> v < 128 \<Longrightarrow> sint (word_of_int v :: 8 word) = v"
  using signed_take_bit_int_eq_self [of 7 v] by (simp add: sint_sbintrunc')

lemma readByte_range:
  "0 \<le> fst (nrb_readByte pf) \<Longrightarrow> \<exists>b :: byte. fst (nrb_readByte pf) = uint b"
  by (cases pf) auto

lemma readUint16_range:
  "0 \<le> fst (nrb_readUint16 pf) \<Longrightarrow> \<exists>w :: 16 word. fst (nrb_readUint16 pf) = uint w"
  by (cases "nrb_read16 pf") (auto simp: nrb_readUint16_def split: if_splits)

lemma parse_counts_range:
  assumes "parse_counts pf = (Some (sc, nc), r)"
  shows "1 \<le> sc \<and> sc \<le> NRB_MAXSECT \<and> 1 \<le> nc \<and> nc \<le> NRB_MAXNOTE"
  using assms unfolding parse_counts_def
  by (auto split: prod.splits if_splits)

lemma sect_table_inv_single: "sect_table_inv [0]"
  by (simp add: sect_table_inv_def)

lemma parse_sect_loop_inv:
  assumes "parse_sect_loop k i ps pf = (Some ps', r)" and "length ps = i + k"
    and "0 < i \<longrightarrow> sect_table_inv (take i ps)"
  shows "length ps' = i + k \<and> (0 < i + k \<longrightarrow> sect_table_inv ps')"
  using assms
proof (induction k arbitrary: i ps pf)
  case 0
  then show ?case by simp
next
  case (Suc k)
  obtain v pf1 where rd: "nrb_readUint64 pf = (v, pf1)" by (cases "nrb_readUint64 pf")
  from Suc.prems have il: "i < length ps" by simp
  from Suc.prems rd il have nn: "0 \<le> sint v"
    and first: "i = 0 \<longrightarrow> v = 0"
    and ord: "0 < i \<longrightarrow> sint (ps ! (i - 1)) \<le> sint v"
    and rest: "parse_sect_loop k (Suc i) (ps[i := v]) pf1 = (Some ps', r)"
    by (auto simp: Let_def split: if_splits)
  have tk: "take (Suc i) (ps[i := v]) = take i ps @ [v]"
    using il by (rule take_Suc_update)
  have "sect_table_inv (take (Suc i) (ps[i := v]))"
  proof (cases "i = 0")
    case True
    with first tk show ?thesis by (simp add: sect_table_inv_single)
  next
    case False
    with Suc.prems(3) have ti: "sect_table_inv (take i ps)" by simp
    from False il have "take i ps \<noteq> []" by auto
    then have "last (take i ps) = take i ps ! (length (take i ps) - 1)"
      by (rule last_conv_nth)
    with False il have "last (take i ps) = ps ! (i - 1)"
      by (simp add: min_def)
    with ord False have "sint (last (take i ps)) \<le> sint v" by simp
    with ti nn show ?thesis unfolding tk by (intro sect_table_inv_snoc)
  qed
  with Suc.IH [OF rest] Suc.prems(2) show ?case by simp
qed

text \<open>The rules for a note against a section count and table.\<close>

lemma parse_note_ok:
  assumes "parse_note sc ps pf = Inr (Some n, r)"
    and "sect_count pd = sc" and "pSect pd = ps"
  shows "note_ok pd n"
proof -
  obtain st pf1 where r1: "nrb_readUint64 pf = (st, pf1)" by (cases "nrb_readUint64 pf")
  obtain rl pf2 where r2: "nrb_readUint64 pf1 = (rl, pf2)" by (cases "nrb_readUint64 pf1")
  from assms r1 have c1: "0 \<le> sint st"
    by (auto simp: parse_note_def split: if_splits)
  from assms r1 r2 c1 have c2: "sint st < sint rl"
    by (auto simp: parse_note_def split: if_splits)
  obtain ok v pf3 where r3: "nrb_readBias8 pf2 = Inr (ok, v, pf3)"
    using assms r1 r2 c1 c2
    by (cases "nrb_readBias8 pf2") (auto simp: parse_note_def)
  from assms r1 r2 r3 c1 c2 have c3: "ok \<noteq> 0" "NRB_MINPITCH \<le> v" "v \<le> NRB_MAXPITCH"
    by (auto simp: parse_note_def split: if_splits)
  obtain a pf4 where r4: "nrb_readByte pf3 = (a, pf4)" by (cases "nrb_readByte pf3")
  obtain u pf5 where r5: "nrb_readUint16 pf4 = (u, pf5)" by (cases "nrb_readUint16 pf4")
  obtain s pf6 where r6: "nrb_readUint16 pf5 = (s, pf6)" by (cases "nrb_readUint16 pf5")
  obtain l pf7 where r7: "nrb_readUint16 pf6 = (l, pf7)" by (cases "nrb_readUint16 pf6")
  from assms(1) r1 r2 r3 r4 r5 r6 r7 c1 c2 c3
  have c4: "0 \<le> a" "a AND 0x3f \<le> NRB_MAXART" and c5: "0 \<le> u" "u \<le> NRB_MAXRAMP"
    and c6: "0 \<le> s" "s < sc" and c7: "0 \<le> l"
    and n: "n = \<lparr>start = st, release = rl, pitch = word_of_int v, art = word_of_int a,
                ramp = word_of_int u, sect = word_of_int s, layer_i = word_of_int l\<rparr>"
    and c8: "sint (ps ! unat (word_of_int s :: 16 word)) \<le> sint st"
    by (auto simp: parse_note_def split: if_splits)
  from c4 r4 obtain b :: byte where b: "a = uint b"
    using readByte_range [of pf3] by auto
  from c5 r5 obtain wu :: "16 word" where wu: "u = uint wu"
    using readUint16_range [of pf4] by auto
  from c6 r6 obtain ws :: "16 word" where ws: "s = uint ws"
    using readUint16_range [of pf5] by auto
  have p: "sint (word_of_int v :: 8 word) = v"
    using c3 by (intro sint_byte_of_int) (simp_all add: nrb_consts)
  have ar: "uint (b AND 0x3f) \<le> NRB_MAXART"
    using c4(2) by (simp add: b uint_and)
  show ?thesis
    unfolding note_ok_def n
    using c1 c2 c3 p ar c5 c6 c8 assms(2,3) by (simp add: b wu ws)
qed

lemma parse_note_loop_inv:
  assumes "parse_note_loop k i sc ps pn pf = Inr (Some pn', r)" and "length pn = i + k"
    and "\<forall>n \<in> set (take i pn). note_ok pd n"
    and "sect_count pd = sc" and "pSect pd = ps"
  shows "length pn' = i + k \<and> (\<forall>n \<in> set pn'. note_ok pd n)"
  using assms(1-3)
proof (induction k arbitrary: i pn pf)
  case 0
  then show ?case by simp
next
  case (Suc k)
  from Suc.prems(1) obtain n pf1 where n: "parse_note sc ps pf = Inr (Some n, pf1)"
    and rest: "parse_note_loop k (Suc i) sc ps (pn[i := n]) pf1 = Inr (Some pn', r)"
    by (auto split: sum.splits option.splits prod.splits)
  from Suc.prems have il: "i < length pn" by simp
  have ok: "note_ok pd n" using n assms(4,5) by (rule parse_note_ok)
  have "take (Suc i) (pn[i := n]) = take i pn @ [n]" using il by (rule take_Suc_update)
  with Suc.prems(3) ok have "\<forall>m \<in> set (take (Suc i) (pn[i := n])). note_ok pd m"
    by simp
  with Suc.IH [OF rest] Suc.prems(2) show ?case by simp
qed

lemma nrb_parse_inv:
  assumes "nrb_parse pf = Inr (ver, Some pd, r)"
  shows "doc_inv pd"
proof -
  from assms obtain pf1 sc nc pf2 pf3 ps pf4 pn where
    c: "parse_counts pf1 = (Some (sc, nc), pf2)" and
    s: "parse_sect_loop (nat sc) 0 (replicate (nat sc) 0) pf3 = (Some ps, pf4)" and
    n: "parse_note_loop (nat nc) 0 sc ps (replicate (nat nc) zero_note) pf4 = Inr (Some pn, r)" and
    pd: "pd = \<lparr>sect_count = sc, sect_cap = sc, note_count = nc, note_cap = nc,
               pSect = ps, pNote = pn\<rparr>"
    by (rule nrb_parse_success)
  note rg = parse_counts_range [OF c]
  from parse_sect_loop_inv [OF s] rg have ps: "length ps = nat sc" "sect_table_inv ps"
    by simp_all
  have "length pn = 0 + nat nc \<and> (\<forall>m \<in> set pn. note_ok pd m)"
    using n by (rule parse_note_loop_inv) (simp_all add: pd)
  then have pn: "length pn = nat nc" "\<forall>m \<in> set pn. note_ok pd m" by simp_all
  show ?thesis
    unfolding doc_inv_def sections_of_def notes_of_def
    using rg ps pn by (simp add: pd)
qed

lemma constructed_inv: "constructed pd \<Longrightarrow> doc_inv pd"
proof (induction rule: constructed.induct)
  case c_alloc
  show ?case by (rule doc_inv_alloc)
next
  case (c_parse pf ver pd pf')
  then show ?case by (rule nrb_parse_inv)
next
  case (c_sect pd offset st pd')
  then show ?case by (blast intro: nrb_sect_inv)
next
  case (c_append pd pn st pd')
  then show ?case by (blast intro: nrb_append_inv)
next
  case (c_set pd i pn pd')
  then show ?case by (blast intro: nrb_set_inv)
next
  case (c_sort pd qsort pd')
  then show ?case by (blast intro: nrb_sort_inv)
qed

lemma uint32_of_int: "0 \<le> k \<Longrightarrow> k < 4294967296 \<Longrightarrow> uint (word_of_int k :: 32 word) = k"
  by (simp add: uint_word_of_int)

lemma uint16_of_int: "0 \<le> k \<Longrightarrow> k < 65536 \<Longrightarrow> uint (word_of_int k :: 16 word) = k"
  by (simp add: uint_word_of_int)

lemma readUint32_of_int:
  assumes "0 \<le> k" and "k \<le> 2147483647"
  shows "nrb_readUint32 (be32 (word_of_int k) @ t) = (k, t)"
proof -
  have u: "uint (word_of_int k :: 32 word) = k" using assms by (intro uint32_of_int) simp_all
  then have "\<not> (word_of_int k :: 32 word) > NRB_MAXUINT32"
    using assms by (simp add: word_less_alt NRB_MAXUINT32_def)
  with u show ?thesis by (simp add: readUint32_be32)
qed

lemma readUint16_of_int:
  assumes "0 \<le> k" and "k \<le> 65535"
  shows "nrb_readUint16 (be16 (word_of_int k) @ t) = (k, t)"
  using assms uint16_of_int [of k] by (simp add: readUint16_be16)

lemma parse_version_enc:
  "parse_version (be32 (word_of_int NRB_SIGPRI) @ be32 (word_of_int NRB_SIGSEC) @ [1, 0] @ t)
     = (NRB_VER_OK, True, t)"
proof -
  have a: "nrb_readUint32 (be32 (word_of_int NRB_SIGPRI) @ t') = (NRB_SIGPRI, t')" for t'
    by (rule readUint32_of_int) (simp_all add: NRB_SIGPRI_def)
  have b: "nrb_readUint32 (be32 (word_of_int NRB_SIGSEC) @ t') = (NRB_SIGSEC, t')" for t'
    by (rule readUint32_of_int) (simp_all add: NRB_SIGSEC_def)
  show ?thesis by (simp add: parse_version_def a b)
qed

lemma parse_counts_enc:
  assumes "1 \<le> sc" "sc \<le> NRB_MAXSECT" "1 \<le> nc" "nc \<le> NRB_MAXNOTE"
  shows "parse_counts (be16 (word_of_int sc) @ be32 (word_of_int nc) @ t) = (Some (sc, nc), t)"
proof -
  have a: "nrb_readUint16 (be16 (word_of_int sc) @ t') = (sc, t')" for t'
    using assms by (intro readUint16_of_int) (simp_all add: nrb_consts)
  have b: "nrb_readUint32 (be32 (word_of_int nc) @ t') = (nc, t')" for t'
    using assms by (intro readUint32_of_int) (simp_all add: nrb_consts)
  show ?thesis using assms by (simp add: parse_counts_def a b)
qed

lemma parse_reserved_enc:
  "parse_reserved (be32 0 @ be32 0 @ be32 0 @ be32 0 @ t) = (True, t)"
proof -
  have a: "nrb_readUint32 (be32 0 @ t') = (0, t')" for t'
    using readUint32_of_int [of 0 t'] by simp
  show ?thesis by (simp add: parse_reserved_def a)
qed

text \<open>The section loop on encoded entries.\<close>

lemma parse_sect_loop_enc_tail:
  assumes "length ps = i + length vs" and "0 < i"
    and "\<forall>v \<in> set vs. 0 \<le> sint v"
    and "sorted_wrt (\<lambda>a b. sint a \<le> sint b) (ps ! (i - 1) # vs)"
  shows "parse_sect_loop (length vs) i ps (concat (map be64 vs) @ t) = (Some (take i ps @ vs), t)"
  using assms
proof (induction vs arbitrary: i ps)
  case Nil
  then show ?case by simp
next
  case (Cons v vs)
  from Cons.prems have il: "i < length ps" by simp
  from Cons.prems have nn: "0 \<le> sint v" and ord: "sint (ps ! (i - 1)) \<le> sint v"
    by simp_all
  have rd: "nrb_readUint64 (be64 v @ t') = (v, t')" for t'
    using nn by (simp add: readUint64_be64)
  have "parse_sect_loop (length vs) (Suc i) (ps[i := v]) (concat (map be64 vs) @ t)
          = (Some (take (Suc i) (ps[i := v]) @ vs), t)"
  proof (rule Cons.IH)
    show "length (ps[i := v]) = Suc i + length vs" using Cons.prems(1) by simp
    show "0 < Suc i" by simp
    show "\<forall>v \<in> set vs. 0 \<le> sint v" using Cons.prems(3) by simp
    show "sorted_wrt (\<lambda>a b. sint a \<le> sint b) (ps[i := v] ! (Suc i - 1) # vs)"
      using Cons.prems(4) il by simp
  qed
  moreover have "take (Suc i) (ps[i := v]) = take i ps @ [v]"
    using il by (rule take_Suc_update)
  ultimately show ?case
    using il nn ord Cons.prems(2) by (simp add: rd Let_def)
qed

lemma parse_sect_loop_enc:
  assumes "sect_table_inv vs"
  shows "parse_sect_loop (length vs) 0 (replicate (length vs) 0) (concat (map be64 vs) @ t)
           = (Some vs, t)"
proof -
  from assms obtain ws where vs: "vs = 0 # ws"
    by (cases vs) (auto simp: sect_table_inv_def)
  from assms have nn: "\<forall>v \<in> set ws. 0 \<le> sint v"
    and so: "sorted_wrt (\<lambda>a b. sint a \<le> sint b) (0 # ws)"
    by (simp_all add: sect_table_inv_def vs)
  have rd: "nrb_readUint64 (be64 0 @ t') = (0, t')" for t'
    by (simp add: readUint64_be64)
  have "parse_sect_loop (length ws) (Suc 0) (0 # replicate (length ws) 0)
          (concat (map be64 ws) @ t) = (Some (take (Suc 0) (0 # replicate (length ws) 0) @ ws), t)"
    using nn so by (intro parse_sect_loop_enc_tail) simp_all
  then show ?thesis
    by (simp add: vs rd Let_def)
qed

lemma bias_byte: "uint ((p :: 8 word) + 128) - 128 = sint p"
proof -
  have "sint p = signed_take_bit 7 (uint p)" by (simp add: sint_uint)
  moreover have "uint (p + 128) = (uint p + 128) mod 256"
    by (simp add: uint_word_ariths)
  moreover have "0 \<le> uint p" "uint p < 256" using uint_bounded [of p] by simp_all
  ultimately show ?thesis
    by (simp add: signed_take_bit_eq_take_bit_shift take_bit_eq_mod)
qed

lemma sint_byte_range: "- 128 \<le> sint (p :: 8 word) \<and> sint p \<le> 127"
  using sint_ge [of p] sint_lt [of p] by simp

lemma writeBias8_pitch: "nrb_writeBias8 pOut (sint (p :: 8 word)) = Inr (pOut @ [p + 128])"
proof -
  have a: "sint p + 128 = uint (p + 128)" using bias_byte [of p] by simp
  have "uint (p + 128) < 256" using uint_bounded [of "p + 128"] by simp
  then have "nrb_writeByte pOut (uint (p + 128)) = Inr (pOut @ [p + 128])"
    by (simp add: nrb_writeByte_def)
  with sint_byte_range [of p] show ?thesis
    by (simp add: nrb_writeBias8_def nrb_consts a)
qed

lemma writeByte_uint: "nrb_writeByte pOut (uint (b :: byte)) = Inr (pOut @ [b])"
proof -
  have "uint b < 256" using uint_bounded [of b] by simp
  then show ?thesis by (simp add: nrb_writeByte_def)
qed

lemma write_note_enc: "write_note pf pn = Inr (pf @ enc_note pn)"
  by (simp add: write_note_def enc_note_def writeUint64_be64 writeUint16_be16
      writeBias8_pitch writeByte_uint)

lemma write_sections_enc: "write_sections pf vs = Inr (pf @ concat (map be64 vs))"
  by (induction vs arbitrary: pf) (simp_all add: writeUint64_be64)

lemma write_notes_enc: "write_notes pf ns = Inr (pf @ concat (map enc_note ns))"
  by (induction ns arbitrary: pf) (simp_all add: write_note_enc)

lemma nrb_serialize_enc:
  assumes "0 < note_count pd"
  shows "nrb_serialize pd pf = Inr (1, pf @ enc_doc pd)"
  using assms
  by (simp add: nrb_serialize_def enc_doc_def enc_header_def writeUint32_be32
      writeUint16_be16 write_sections_enc write_notes_enc nrb_writeByte_def
      sections_of_def notes_of_def)

lemma nrb_serialize_empty:
  assumes "\<not> 0 < note_count pd"
  shows "nrb_serialize pd pf = Inr (0, pf)"
  using assms by (simp add: nrb_serialize_def)

lemma parse_note_enc:
  assumes ok: "note_ok pd n" and sc: "sect_count pd = sc" and ps: "pSect pd = ps"
  shows "parse_note sc ps (enc_note n @ t) = Inr (Some n, t)"
proof -
  from ok have c: "0 \<le> sint (start n)" "sint (start n) < sint (release n)"
    "NRB_MINPITCH \<le> sint (pitch n)" "sint (pitch n) \<le> NRB_MAXPITCH"
    "uint (art n AND 0x3f) \<le> NRB_MAXART" "uint (ramp n) \<le> NRB_MAXRAMP"
    "uint (sect n) < sect_count pd" "sint (pSect pd ! unat (sect n)) \<le> sint (start n)"
    by (simp_all add: note_ok_def)
  have r1: "nrb_readUint64 (be64 (start n) @ t') = (start n, t')" for t'
    using c(1) by (simp add: readUint64_be64)
  have r2: "nrb_readUint64 (be64 (release n) @ t') = (release n, t')" for t'
    using c(1,2) by (simp add: readUint64_be64)
  have r3: "nrb_readBias8 ((pitch n + 128) # t') = Inr (1, sint (pitch n), t')" for t'
    by (simp add: readBias8_cons bias_byte)
  have a: "uint (art n) AND 63 \<le> NRB_MAXART"
    using c(5) by (simp add: uint_and)
  have n: "\<lparr>start = start n, release = release n, pitch = pitch n, art = art n,
             ramp = ramp n, sect = sect n, layer_i = layer_i n\<rparr> = n"
    by simp
  show ?thesis
    using c a
    by (simp add: parse_note_def enc_note_def r1 r2 r3 readUint16_be16 n sc [symmetric] ps [symmetric])
qed

lemma parse_note_loop_enc:
  assumes "\<forall>n \<in> set ns. note_ok pd n" and "sect_count pd = sc" and "pSect pd = ps"
    and "length pn = i + length ns"
  shows "parse_note_loop (length ns) i sc ps pn (concat (map enc_note ns) @ t)
           = Inr (Some (take i pn @ ns), t)"
  using assms(1,4)
proof (induction ns arbitrary: i pn)
  case Nil
  then show ?case by simp
next
  case (Cons n ns)
  from Cons.prems have il: "i < length pn" by simp
  from Cons.prems have "note_ok pd n" by simp
  then have rd: "parse_note sc ps (enc_note n @ t') = Inr (Some n, t')" for t'
    using assms(2,3) by (rule parse_note_enc)
  have "parse_note_loop (length ns) (Suc i) sc ps (pn[i := n]) (concat (map enc_note ns) @ t)
          = Inr (Some (take (Suc i) (pn[i := n]) @ ns), t)"
    using Cons.prems by (intro Cons.IH) simp_all
  moreover have "take (Suc i) (pn[i := n]) = take i pn @ [n]"
    using il by (rule take_Suc_update)
  ultimately show ?case by (simp add: rd)
qed

text \<open>The document that parsing the serialized form of a document gives back.\<close>

lemma nrb_parse_enc_doc:
  assumes inv: "doc_inv pd" and pos: "0 < note_count pd"
  shows "nrb_parse (enc_doc pd @ t) =
           Inr (NRB_VER_OK,
                Some \<lparr>sect_count = sect_count pd, sect_cap = sect_count pd,
                      note_count = note_count pd, note_cap = note_count pd,
                      pSect = sections_of pd, pNote = notes_of pd\<rparr>, t)"
proof -
  define pd' where "pd' = \<lparr>sect_count = sect_count pd, sect_cap = sect_count pd,
                      note_count = note_count pd, note_cap = note_count pd,
                      pSect = sections_of pd, pNote = notes_of pd\<rparr>"
  from inv have rg: "1 \<le> sect_count pd" "sect_count pd \<le> NRB_MAXSECT"
    "note_count pd \<le> NRB_MAXNOTE"
    and len: "length (pSect pd) = nat (sect_cap pd)" "sect_count pd \<le> sect_cap pd"
      "length (pNote pd) = nat (note_cap pd)" "note_count pd \<le> note_cap pd"
    and ti: "sect_table_inv (sections_of pd)"
    and nk: "\<forall>n \<in> set (notes_of pd). note_ok pd n"
    by (simp_all add: doc_inv_def)
  have ls: "length (sections_of pd) = nat (sect_count pd)"
    using len by (simp add: sections_of_def)
  have ln: "length (notes_of pd) = nat (note_count pd)"
    using len by (simp add: notes_of_def)
  have nk': "\<forall>n \<in> set (notes_of pd). note_ok pd' n"
  proof
    fix n assume "n \<in> set (notes_of pd)"
    with nk have "note_ok pd n" by simp
    then show "note_ok pd' n"
      by (rule note_ok_cong [rotated 2]) (simp_all add: pd'_def sections_of_def)
  qed
  have v: "parse_version (enc_doc pd @ t) =
             (NRB_VER_OK, True,
              be16 (word_of_int (sect_count pd)) @ be32 (word_of_int (note_count pd)) @
              be32 0 @ be32 0 @ be32 0 @ be32 0 @
              concat (map be64 (sections_of pd)) @ concat (map enc_note (notes_of pd)) @ t)"
    using parse_version_enc by (simp add: enc_doc_def enc_header_def)
  have c: "parse_counts (be16 (word_of_int (sect_count pd)) @ be32 (word_of_int (note_count pd)) @ t')
             = (Some (sect_count pd, note_count pd), t')" for t'
    using rg pos by (intro parse_counts_enc) simp_all
  have s: "parse_sect_loop (nat (sect_count pd)) 0 (replicate (nat (sect_count pd)) 0)
             (concat (map be64 (sections_of pd)) @ t') = (Some (sections_of pd), t')" for t'
    using parse_sect_loop_enc [OF ti, of t'] by (simp add: ls)
  have n: "parse_note_loop (nat (note_count pd)) 0 (sect_count pd) (sections_of pd)
             (replicate (nat (note_count pd)) zero_note)
             (concat (map enc_note (notes_of pd)) @ t) = Inr (Some (notes_of pd), t)"
    using parse_note_loop_enc [OF nk', of "sect_count pd" "sections_of pd"
        "replicate (nat (note_count pd)) zero_note" 0 t]
    by (simp add: ln pd'_def)
  show ?thesis
    unfolding nrb_parse_def
    by (simp add: v c parse_reserved_enc s n)
qed

lemma nonneg64_iff: "0 \<le> sint (v :: 64 word) \<longleftrightarrow> v \<le> NRB_MAXUINT64"
  using msb64 [of v] by (simp add: not_less [symmetric])

lemma sint_eq_uint_nonneg:
  assumes "0 \<le> sint (v :: 64 word)"
  shows "sint v = uint v"
proof -
  from assms have "\<not> bit v 63" using bit_last_iff [of v] by simp
  then have nb: "\<not> bit (uint v) 63" by (simp add: bit_uint_iff)
  from assms have "v \<le> NRB_MAXUINT64" by (simp add: nonneg64_iff)
  then have "uint v \<le> 9223372036854775807"
    by (simp add: word_le_def NRB_MAXUINT64_def)
  then have "take_bit 63 (uint v) = uint v"
    by (intro take_bit_int_eq_self) simp_all
  moreover have "sint v = signed_take_bit 63 (uint v)" by (simp add: sint_uint)
  ultimately show ?thesis using nb by (simp add: signed_take_bit_eq_if_positive)
qed

lemma sle_iff_le:
  "0 \<le> sint (a :: 64 word) \<Longrightarrow> 0 \<le> sint b \<Longrightarrow> sint a \<le> sint b \<longleftrightarrow> a \<le> b"
  by (simp add: sint_eq_uint_nonneg word_le_def)

lemma sect_table_ok_iff: "sect_table_ok vs \<longleftrightarrow> sect_table_inv vs"
proof -
  have "sorted_wrt (\<lambda>a b. sint a \<le> sint b) vs \<longleftrightarrow> sorted vs" if "\<forall>v \<in> set vs. 0 \<le> sint v"
  proof
    assume "sorted_wrt (\<lambda>a b. sint a \<le> sint b) vs"
    then show "sorted vs"
      using that by (rule_tac sorted_wrt_mono_rel [where P = "\<lambda>a b. sint a \<le> sint b"])
        (auto simp: sle_iff_le)
  next
    assume "sorted vs"
    then show "sorted_wrt (\<lambda>a b. sint a \<le> sint b) vs"
      using that by (rule_tac sorted_wrt_mono_rel [where P = "(\<le>)"])
        (auto simp: sle_iff_le)
  qed
  then show ?thesis
    unfolding sect_table_ok_def sect_table_inv_def
    by (auto simp: nonneg64_iff)
qed

lemma sle_sorted2:
  "sorted_wrt (\<lambda>a b. sint a \<le> sint b) (p # v # vs) \<longleftrightarrow>
     sint p \<le> sint v \<and> sorted_wrt (\<lambda>a b. sint a \<le> sint b) (v # vs)"
  by force

lemma readUint64_rest: "snd (nrb_readUint64 pf) = drop 8 pf"
proof (cases "8 \<le> length pf")
  case True
  then show ?thesis by (simp add: nrb_readUint64_def nrb_read64_def read_loop_long)
next
  case False
  then show ?thesis by (simp add: readUint64_short)
qed

lemma parse_sect_loop_short:
  assumes "length pf < 8 * k" and "i + k \<le> length ps"
  shows "fst (parse_sect_loop k i ps pf) = None"
  using assms
proof (induction k arbitrary: i ps pf)
  case 0
  then show ?case by simp
next
  case (Suc k)
  from Suc.prems have il: "i < length ps" by simp
  obtain v pf1 where rd: "nrb_readUint64 pf = (v, pf1)" by (cases "nrb_readUint64 pf")
  show ?case
  proof (cases "length pf < 8")
    case True
    with rd have "v = - 1" by (simp add: readUint64_short)
    with rd il show ?thesis by (simp add: Let_def)
  next
    case False
    from rd have "pf1 = drop 8 pf" using readUint64_rest [of pf] by simp
    with False Suc.prems(1) have "length pf1 < 8 * k" by simp
    moreover from Suc.prems(2) have "Suc i + k \<le> length (ps[i := v])" by simp
    ultimately have "fst (parse_sect_loop k (Suc i) (ps[i := v]) pf1) = None"
      by (rule Suc.IH)
    with rd il show ?thesis by (auto simp: Let_def)
  qed
qed

lemma parse_sect_loop_enc_fail_tail:
  assumes "length ps = i + length vs" and "0 < i"
    and "\<not> ((\<forall>v \<in> set vs. 0 \<le> sint v) \<and>
             sorted_wrt (\<lambda>a b. sint a \<le> sint b) (ps ! (i - 1) # vs))"
  shows "fst (parse_sect_loop (length vs) i ps (concat (map be64 vs) @ t)) = None"
  using assms
proof (induction vs arbitrary: i ps)
  case Nil
  then show ?case by simp
next
  case (Cons v vs)
  from Cons.prems have il: "i < length ps" by simp
  have rd: "nrb_readUint64 (be64 v @ t') = (if sint v < 0 then - 1 else v, t')" for t'
    by (rule readUint64_be64)
  show ?case
  proof (cases "0 \<le> sint v \<and> sint (ps ! (i - 1)) \<le> sint v")
    case False
    with il Cons.prems(2) show ?thesis by (auto simp: rd Let_def)
  next
    case True
    have "fst (parse_sect_loop (length vs) (Suc i) (ps[i := v]) (concat (map be64 vs) @ t)) = None"
    proof (rule Cons.IH)
      show "length (ps[i := v]) = Suc i + length vs" using Cons.prems(1) by simp
      show "0 < Suc i" by simp
      show "\<not> ((\<forall>v \<in> set vs. 0 \<le> sint v) \<and>
               sorted_wrt (\<lambda>a b. sint a \<le> sint b) (ps[i := v] ! (Suc i - 1) # vs))"
        using Cons.prems(3) True il unfolding sle_sorted2 by simp
    qed
    with True il Cons.prems(2) show ?thesis by (simp add: rd Let_def)
  qed
qed

lemma parse_sect_loop_enc_fail:
  assumes "vs \<noteq> []" and "\<not> sect_table_inv vs"
  shows "fst (parse_sect_loop (length vs) 0 (replicate (length vs) 0) (concat (map be64 vs) @ t))
           = None"
proof -
  from assms(1) obtain v ws where vs: "vs = v # ws" by (cases vs) auto
  have rd: "nrb_readUint64 (be64 v @ t') = (if sint v < 0 then - 1 else v, t')" for t'
    by (rule readUint64_be64)
  show ?thesis
  proof (cases "v = 0")
    case False
    then show ?thesis by (simp add: vs rd Let_def)
  next
    case True
    with assms(2) have "\<not> ((\<forall>v \<in> set ws. 0 \<le> sint v) \<and>
        sorted_wrt (\<lambda>a b. sint a \<le> sint b) ((0 # replicate (length ws) 0) ! (Suc 0 - 1) # ws))"
      by (simp add: sect_table_inv_def vs)
    then have "fst (parse_sect_loop (length ws) (Suc 0) (0 # replicate (length ws) 0)
          (concat (map be64 ws) @ t)) = None"
      by (intro parse_sect_loop_enc_fail_tail) simp_all
    with True show ?thesis by (simp add: vs readUint64_be64 Let_def)
  qed
qed

lemma top_bit4:
  fixes a b c d :: byte
  shows "bit (((push_bit 24 (ucast a) OR push_bit 16 (ucast b)) OR push_bit 8 (ucast c)) OR
          (ucast d :: 32 word)) 31
     \<longleftrightarrow> bit a 7"
  using bit_imp_le_length [of b 15] bit_imp_le_length [of c 23] bit_imp_le_length [of d 31]
  by (auto simp: bit_simps)

lemma byte_top_bit: "bit (a :: byte) 7 \<longleftrightarrow> \<not> a < 0x80"
proof -
  have b: "uint a < 256" using uint_bounded [of a] by simp
  have z: "0 \<le> uint a" by simp
  have "bit a 7 \<longleftrightarrow> bit (uint a) 7" by (simp add: bit_uint_iff)
  also have "\<dots> \<longleftrightarrow> odd (uint a div 2 ^ 7)" by (rule bit_iff_odd)
  also have "\<dots> \<longleftrightarrow> 128 \<le> uint a"
    using odd_div_iff [OF z, of "2 ^ 7"] b by simp
  also have "\<dots> \<longleftrightarrow> \<not> a < 0x80" by (simp add: word_less_alt not_less)
  finally show ?thesis .
qed

lemma read32_cons4:
  "nrb_read32 (a # b # c # d # t) =
     (1, ((push_bit 24 (ucast a) OR push_bit 16 (ucast b)) OR push_bit 8 (ucast c)) OR ucast d, t)"
  unfolding nrb_read32_def by (subst read_loop_long) simp_all

lemma readUint32_cons4_neg:
  "fst (nrb_readUint32 (a # b # c # d # t)) < 0 \<longleftrightarrow> \<not> a < 0x80"
  by (simp add: nrb_readUint32_def read32_cons4 msb32 top_bit4 byte_top_bit)

lemma readUint32_prefix:
  assumes "4 \<le> length p"
  shows "nrb_readUint32 (p @ X) = (fst (nrb_readUint32 (take 4 p)), drop 4 p @ X)"
  using assms by (simp add: nrb_readUint32_def nrb_read32_def read_loop_long)

lemma readUint16_prefix:
  assumes "2 \<le> length p"
  shows "nrb_readUint16 (p @ X) = (fst (nrb_readUint16 (take 2 p)), drop 2 p @ X)"
  using assms by (simp add: nrb_readUint16_def nrb_read16_def read_loop_long)

lemma readByte_prefix:
  assumes "1 \<le> length p"
  shows "nrb_readByte (p @ X) = (uint (hd p), drop 1 p @ X)"
  using assms by (cases p) simp_all

lemma readUint32_prefix_neg:
  assumes "4 \<le> length p"
  shows "fst (nrb_readUint32 (take 4 p)) < 0 \<longleftrightarrow> \<not> p ! 0 < 0x80"
proof -
  from assms obtain a b c d q where p: "p = a # b # c # d # q"
    by (auto simp: numeral_eq_Suc Suc_le_length_iff)
  show ?thesis using readUint32_cons4_neg [of a b c d "[]"] by (simp add: p)
qed

lemma parse_version_prefix:
  assumes "length h = 10"
  shows "\<exists>ver ok. \<forall>X. \<exists>f. parse_version (h @ X) = (ver, ok, f) \<and> (ok \<longrightarrow> f = X)"
proof -
  have r1: "nrb_readUint32 (h @ X) = (fst (nrb_readUint32 (take 4 h)), drop 4 h @ X)" for X
    using assms by (intro readUint32_prefix) simp
  have r2: "nrb_readUint32 (drop 4 h @ X) = (fst (nrb_readUint32 (take 4 (drop 4 h))), drop 8 h @ X)"
    for X
    using assms readUint32_prefix [of "drop 4 h" X] by simp
  have r3: "nrb_readByte (drop 8 h @ X) = (uint (hd (drop 8 h)), drop 9 h @ X)" for X
    using assms readByte_prefix [of "drop 8 h" X] by simp
  have r4: "nrb_readByte (drop 9 h @ X) = (uint (hd (drop 9 h)), X)" for X
    using assms readByte_prefix [of "drop 9 h" X] by simp
  define s1 where "s1 = fst (nrb_readUint32 (take 4 h))"
  define s2 where "s2 = fst (nrb_readUint32 (take 4 (drop 4 h)))"
  define mj where "mj = uint (hd (drop 8 h))"
  define mn where "mn = uint (hd (drop 9 h))"
  have pv: "parse_version (h @ X) =
     (if s1 \<noteq> NRB_SIGPRI then (NRB_VER_ERROR, False, drop 4 h @ X)
      else if s2 \<noteq> NRB_SIGSEC then (NRB_VER_ERROR, False, drop 8 h @ X)
      else if mj \<noteq> 1 then (NRB_VER_MAJOR, False, X)
      else if mn = 0 then (NRB_VER_OK, True, X) else (NRB_VER_MINOR, True, X))" for X
    unfolding parse_version_def r1 r2 r3 r4 s1_def s2_def mj_def mn_def
    by (simp add: r2 r3 r4)
  show ?thesis
    apply (rule exI [of _ "fst (parse_version h)"])
    apply (rule exI [of _ "fst (snd (parse_version h))"])
    using pv [of "[]"] by (auto simp: pv)
qed

lemma parse_counts_prefix:
  assumes "length c = 6"
  shows "\<exists>res. \<forall>X. \<exists>f. parse_counts (c @ X) = (res, f) \<and> (res \<noteq> None \<longrightarrow> f = X)"
proof -
  have r1: "nrb_readUint16 (c @ X) = (fst (nrb_readUint16 (take 2 c)), drop 2 c @ X)" for X
    using assms by (intro readUint16_prefix) simp
  have r2: "nrb_readUint32 (drop 2 c @ X) = (fst (nrb_readUint32 (take 4 (drop 2 c))), X)" for X
    using assms readUint32_prefix [of "drop 2 c" X] by simp
  define sc where "sc = fst (nrb_readUint16 (take 2 c))"
  define nc where "nc = fst (nrb_readUint32 (take 4 (drop 2 c)))"
  have pc: "parse_counts (c @ X) =
     (if sc < 1 \<or> sc > NRB_MAXSECT then (None, drop 2 c @ X)
      else if nc < 1 \<or> nc > NRB_MAXNOTE then (None, X)
      else (Some (sc, nc), X))" for X
    unfolding parse_counts_def r1 sc_def nc_def
    by (simp add: r2)
  show ?thesis
    apply (rule exI [of _ "fst (parse_counts c)"])
    using pc [of "[]"] by (auto simp: pc)
qed

lemma parse_reserved_prefix:
  assumes "length r = 16"
  shows "fst (parse_reserved (r @ X)) = reserved_ok r \<and>
         (reserved_ok r \<longrightarrow> snd (parse_reserved (r @ X)) = X)"
proof -
  define v1 where "v1 = fst (nrb_readUint32 (take 4 r))"
  define v2 where "v2 = fst (nrb_readUint32 (take 4 (drop 4 r)))"
  define v3 where "v3 = fst (nrb_readUint32 (take 4 (drop 8 r)))"
  define v4 where "v4 = fst (nrb_readUint32 (take 4 (drop 12 r)))"
  have r1: "nrb_readUint32 (r @ X) = (v1, drop 4 r @ X)"
    unfolding v1_def using assms by (intro readUint32_prefix) simp
  have r2: "nrb_readUint32 (drop 4 r @ X) = (v2, drop 8 r @ X)"
    unfolding v2_def using assms readUint32_prefix [of "drop 4 r" X] by simp
  have r3: "nrb_readUint32 (drop 8 r @ X) = (v3, drop 12 r @ X)"
    unfolding v3_def using assms readUint32_prefix [of "drop 8 r" X] by simp
  have r4: "nrb_readUint32 (drop 12 r @ X) = (v4, X)"
    unfolding v4_def using assms readUint32_prefix [of "drop 12 r" X] by simp
  have n1: "v1 < 0 \<longleftrightarrow> \<not> r ! 0 < 0x80"
    unfolding v1_def using assms by (intro readUint32_prefix_neg) simp
  have n2: "v2 < 0 \<longleftrightarrow> \<not> r ! 4 < 0x80"
    unfolding v2_def using assms readUint32_prefix_neg [of "drop 4 r"] by simp
  have n3: "v3 < 0 \<longleftrightarrow> \<not> r ! 8 < 0x80"
    unfolding v3_def using assms readUint32_prefix_neg [of "drop 8 r"] by simp
  have n4: "v4 < 0 \<longleftrightarrow> \<not> r ! 12 < 0x80"
    unfolding v4_def using assms readUint32_prefix_neg [of "drop 12 r"] by simp
  have "parse_reserved (r @ X) =
     (if v1 < 0 then (False, drop 4 r @ X) else if v2 < 0 then (False, drop 8 r @ X)
      else if v3 < 0 then (False, drop 12 r @ X) else if v4 < 0 then (False, X) else (True, X))"
    unfolding parse_reserved_def r1 by (simp add: r2 r3 r4)
  then show ?thesis
    using assms unfolding n1 n2 n3 n4 reserved_ok_def by auto
qed

section \<open>Examples\<close>

lemma example_parse:
  "nrb_parse example_stream = Inr (NRB_VER_MINOR, Some example_doc, [])"
  by code_simp

lemma example_constructed: "constructed example_doc"
  using example_parse by (rule c_parse)

section \<open>The parser on a section table that breaks a rule\<close>

lemma nrb_parse_sections_fail:
  assumes "parse_version pf = (ver, True, pf1)"
    and "parse_counts pf1 = (Some (sc, nc), pf2)"
    and "parse_reserved pf2 = (True, pf3)"
    and "fst (parse_sect_loop (nat sc) 0 (replicate (nat sc) 0) pf3) = None"
  shows "\<exists>r. nrb_parse pf = Inr (ver, None, r)"
proof -
  obtain r where "parse_sect_loop (nat sc) 0 (replicate (nat sc) 0) pf3 = (None, r)"
    using assms(4) by (cases "parse_sect_loop (nat sc) 0 (replicate (nat sc) 0) pf3") auto
  with assms(1-3) have "nrb_parse pf = Inr (ver, None, r)"
    by (simp add: nrb_parse_def)
  then show ?thesis ..
qed

lemma example_stages:
  "parse_version example_stream = (NRB_VER_MINOR, True, drop 10 example_stream)"
  "parse_counts (drop 10 example_stream) = (Some (1, 1), drop 16 example_stream)"
  "parse_reserved (drop 16 example_stream) = (True, drop 32 example_stream)"
  "drop 32 example_stream = concat (map be64 [0]) @ drop 40 example_stream"
  by code_simp+

section \<open>The parser after the reserved fields\<close>

lemma nrb_parse_after_reserved:
  assumes "parse_version pf = (ver, True, pf1)"
    and "parse_counts pf1 = (Some (sc, nc), pf2)"
    and "parse_reserved pf2 = (True, pf3)"
  shows "nrb_parse pf =
     (case parse_sect_loop (nat sc) 0 (replicate (nat sc) 0) pf3 of
        (None, pf4) \<Rightarrow> Inr (ver, None, pf4)
      | (Some ps, pf4) \<Rightarrow>
     (case parse_note_loop (nat nc) 0 sc ps (replicate (nat nc) zero_note) pf4 of
        Inl e \<Rightarrow> Inl e
      | Inr (None, pf5) \<Rightarrow> Inr (ver, None, pf5)
      | Inr (Some pn, pf5) \<Rightarrow>
          Inr (ver,
               Some \<lparr>sect_count = sc, sect_cap = sc, note_count = nc, note_cap = nc,
                     pSect = ps, pNote = pn\<rparr>,
               pf5)))"
  using assms by (simp add: nrb_parse_def)

lemma header_split:
  assumes "length hdr = 16"
  shows "(\<exists>ver. \<forall>Z. \<exists>f. nrb_parse (hdr @ Z) = Inr (ver, None, f)) \<or>
         (\<exists>ver sc nc. \<forall>Z. \<exists>pf1. parse_version (hdr @ Z) = (ver, True, pf1) \<and>
                                 parse_counts pf1 = (Some (sc, nc), Z))"
proof -
  define h where "h = take 10 hdr"
  define c where "c = drop 10 hdr"
  have hc: "hdr = h @ c" and lh: "length h = 10" and lc: "length c = 6"
    using assms by (simp_all add: h_def c_def)
  from parse_version_prefix [OF lh] obtain ver ok
    where v: "\<And>X. \<exists>f. parse_version (h @ X) = (ver, ok, f) \<and> (ok \<longrightarrow> f = X)" by blast
  from parse_counts_prefix [OF lc] obtain res
    where k: "\<And>X. \<exists>f. parse_counts (c @ X) = (res, f) \<and> (res \<noteq> None \<longrightarrow> f = X)" by blast
  show ?thesis
  proof (cases "ok \<and> res \<noteq> None")
    case True
    then obtain sc nc where res: "res = Some (sc, nc)" by auto
    have "\<exists>pf1. parse_version (hdr @ Z) = (ver, True, pf1) \<and> parse_counts pf1 = (Some (sc, nc), Z)"
      for Z
      using v [of "c @ Z"] k [of Z] True res by (auto simp: hc)
    then show ?thesis by blast
  next
    case False
    have "\<exists>f. nrb_parse (hdr @ Z) = Inr (ver, None, f)" for Z
    proof (cases ok)
      case False
      with v [of "c @ Z"] show ?thesis by (auto simp: hc nrb_parse_def)
    next
      case True
      with \<open>\<not> (ok \<and> res \<noteq> None)\<close> have "res = None" by (cases res) auto
      with v [of "c @ Z"] k [of Z] True show ?thesis by (auto simp: hc nrb_parse_def)
    qed
    then show ?thesis by blast
  qed
qed

section \<open>Properties of the ordering utility\<close>


lemma nrb_cmp_total: "\<exists>r. nrb_cmp a b = Inr r"
  by (auto simp: nrb_cmp_def)













section \<open>Sequences of appends and of section definitions\<close>

lemma append_all_constructed:
  assumes "constructed pd" and "append_all pd ns = Inr (sts, pd')"
  shows "constructed pd'"
  using assms
proof (induction ns arbitrary: pd sts)
  case Nil
  then show ?case by simp
next
  case (Cons n ns)
  from Cons.prems(2) obtain st pd1 sts1 where a: "nrb_append pd n = Inr (st, pd1)"
    and b: "append_all pd1 ns = Inr (sts1, pd')"
    by (auto split: sum.splits prod.splits)
  from Cons.prems(1) a have "constructed pd1" by (rule c_append)
  then show ?case using b by (rule Cons.IH)
qed

lemma sect_all_constructed:
  assumes "constructed pd" and "sect_all pd offs = Inr (sts, pd')"
  shows "constructed pd'"
  using assms
proof (induction offs arbitrary: pd sts)
  case Nil
  then show ?case by simp
next
  case (Cons off offs)
  from Cons.prems(2) obtain st pd1 sts1 where a: "nrb_sect pd off = Inr (st, pd1)"
    and b: "sect_all pd1 offs = Inr (sts1, pd')"
    by (auto split: sum.splits prod.splits)
  from Cons.prems(1) a have "constructed pd1" by (rule c_sect)
  then show ?case using b by (rule Cons.IH)
qed

lemma notes_of_length:
  assumes "doc_inv pd"
  shows "length (notes_of pd) = nat (note_count pd)"
proof -
  from assms have "note_count pd \<le> note_cap pd" "length (pNote pd) = nat (note_cap pd)"
    by (simp_all add: doc_inv_def)
  then show ?thesis by (simp add: notes_of_def)
qed

lemma sections_of_length:
  assumes "doc_inv pd"
  shows "length (sections_of pd) = nat (sect_count pd)"
proof -
  from assms have "sect_count pd \<le> sect_cap pd" "length (pSect pd) = nat (sect_cap pd)"
    by (simp_all add: doc_inv_def)
  then show ?thesis by (simp add: sections_of_def)
qed

lemma example_note_ok_alloc: "note_ok nrb_alloc example_note"
  by (simp add: note_ok_def example_note_def nrb_alloc_def nrb_consts)

section \<open>What a successful parse has read\<close>

lemma readByte_strip:
  assumes "nrb_readByte pf = (c, r)" and "0 \<le> c"
  shows "\<exists>p. pf = p @ r \<and> length p = 1 \<and> nrb_readByte p = (c, [])"
  using assms by (cases pf) auto

lemma readUint64_strip:
  assumes "nrb_readUint64 pf = (v, r)" and "0 \<le> sint v"
  shows "\<exists>p. pf = p @ r \<and> length p = 8 \<and> nrb_readUint64 p = (v, [])"
proof -
  have l: "8 \<le> length pf"
  proof (rule ccontr)
    assume "\<not> 8 \<le> length pf"
    then have "nrb_readUint64 pf = (- 1, [])" by (simp add: readUint64_short)
    with assms show False by auto
  qed
  then have "nrb_readUint64 (take 8 pf @ drop 8 pf) = nrb_readUint64 pf" by simp
  from l assms(1) have r: "r = drop 8 pf"
    using readUint64_rest [of pf] by simp
  from l have "nrb_readUint64 (take 8 pf) = (fst (nrb_readUint64 pf), [])"
    by (simp add: nrb_readUint64_def nrb_read64_def read_loop_long)
  with assms(1) l show ?thesis
    by (intro exI [of _ "take 8 pf"]) (simp add: r)
qed

lemma readUint32_strip:
  assumes "nrb_readUint32 pf = (v, r)" and "0 \<le> v"
  shows "\<exists>p. pf = p @ r \<and> length p = 4 \<and> nrb_readUint32 p = (v, [])"
proof -
  have l: "4 \<le> length pf"
  proof (rule ccontr)
    assume "\<not> 4 \<le> length pf"
    then have "nrb_readUint32 pf = (- 1, [])" by (simp add: readUint32_short)
    with assms show False by auto
  qed
  from l have a: "nrb_readUint32 pf = (fst (nrb_readUint32 (take 4 pf)), drop 4 pf)"
    using readUint32_prefix [of "take 4 pf" "drop 4 pf"] by simp
  from l have "nrb_readUint32 (take 4 pf) = (fst (nrb_readUint32 (take 4 pf)), [])"
    using readUint32_prefix [of "take 4 pf" "[]"] by simp
  moreover from a assms(1) have r: "r = drop 4 pf" by simp
  ultimately show ?thesis
    using assms(1) l a by (intro exI [of _ "take 4 pf"]) (simp add: r)
qed

lemma readUint16_strip:
  assumes "nrb_readUint16 pf = (v, r)" and "0 \<le> v"
  shows "\<exists>p. pf = p @ r \<and> length p = 2 \<and> nrb_readUint16 p = (v, [])"
proof -
  have l: "2 \<le> length pf"
  proof (rule ccontr)
    assume "\<not> 2 \<le> length pf"
    then have "nrb_readUint16 pf = (- 1, [])" by (simp add: readUint16_short)
    with assms show False by auto
  qed
  from l have a: "nrb_readUint16 pf = (fst (nrb_readUint16 (take 2 pf)), drop 2 pf)"
    using readUint16_prefix [of "take 2 pf" "drop 2 pf"] by simp
  from l have "nrb_readUint16 (take 2 pf) = (fst (nrb_readUint16 (take 2 pf)), [])"
    using readUint16_prefix [of "take 2 pf" "[]"] by simp
  moreover from a assms(1) have r: "r = drop 2 pf" by simp
  ultimately show ?thesis
    using assms(1) l a by (intro exI [of _ "take 2 pf"]) (simp add: r)
qed

lemma readBias8_strip:
  assumes "nrb_readBias8 pf = Inr (st, v, r)" and "st \<noteq> 0"
  shows "\<exists>p. pf = p @ r \<and> length p = 1 \<and> nrb_readBias8 p = Inr (st, v, [])"
  using assms by (cases pf) (auto simp: readBias8_cons readBias8_nil)

lemma parse_version_strip:
  assumes "parse_version pf = (ver, True, r)"
  shows "\<exists>p. pf = p @ r \<and> length p = 10 \<and> parse_version p = (ver, True, [])"
proof -
  obtain s1 pf1 where r1: "nrb_readUint32 pf = (s1, pf1)" by (cases "nrb_readUint32 pf")
  obtain s2 pf2 where r2: "nrb_readUint32 pf1 = (s2, pf2)" by (cases "nrb_readUint32 pf1")
  obtain mj pf3 where r3: "nrb_readByte pf2 = (mj, pf3)" by (cases "nrb_readByte pf2")
  obtain mn pf4 where r4: "nrb_readByte pf3 = (mn, pf4)" by (cases "nrb_readByte pf3")
  from assms r1 r2 r3 r4 have c: "s1 = NRB_SIGPRI" "s2 = NRB_SIGSEC" "0 \<le> mj" "0 \<le> mn" "pf4 = r"
    and d: "mj = 1" "ver = (if mn = 0 then NRB_VER_OK else NRB_VER_MINOR)"
    by (auto simp: parse_version_def split: if_splits)
  from readUint32_strip [OF r1] c obtain p1 where p1: "pf = p1 @ pf1" "length p1 = 4"
    "nrb_readUint32 p1 = (s1, [])" by (auto simp: NRB_SIGPRI_def)
  from readUint32_strip [OF r2] c obtain p2 where p2: "pf1 = p2 @ pf2" "length p2 = 4"
    "nrb_readUint32 p2 = (s2, [])" by (auto simp: NRB_SIGSEC_def)
  from readByte_strip [OF r3] c obtain p3 where p3: "pf2 = p3 @ pf3" "length p3 = 1"
    "nrb_readByte p3 = (mj, [])" by auto
  from readByte_strip [OF r4] c obtain p4 where p4: "pf3 = p4 @ pf4" "length p4 = 1"
    "nrb_readByte p4 = (mn, [])" by auto
  have a1: "nrb_readUint32 (p1 @ t) = (s1, t)" for t
    using readUint32_app [of p1 t] p1(3) c by (simp add: NRB_SIGPRI_def)
  have a2: "nrb_readUint32 (p2 @ t) = (s2, t)" for t
    using readUint32_app [of p2 t] p2(3) c by (simp add: NRB_SIGSEC_def)
  have a3: "nrb_readByte (p3 @ t) = (mj, t)" for t
    using readByte_app [of p3 t] p3(3) c by simp
  have "parse_version (p1 @ p2 @ p3 @ p4) = (ver, True, [])"
    unfolding parse_version_def
    using c d by (simp add: a1 a2 a3 p4(3))
  moreover have "pf = (p1 @ p2 @ p3 @ p4) @ r"
    by (simp add: p1(1) p2(1) p3(1) p4(1) c)
  ultimately show ?thesis using p1(2) p2(2) p3(2) p4(2)
    by (intro exI [of _ "p1 @ p2 @ p3 @ p4"]) simp
qed

lemma parse_counts_strip:
  assumes "parse_counts pf = (Some (sc, nc), r)"
  shows "\<exists>p. pf = p @ r \<and> length p = 6 \<and> parse_counts p = (Some (sc, nc), [])"
proof -
  obtain s1 pf1 where r1: "nrb_readUint16 pf = (s1, pf1)" by (cases "nrb_readUint16 pf")
  obtain s2 pf2 where r2: "nrb_readUint32 pf1 = (s2, pf2)" by (cases "nrb_readUint32 pf1")
  from assms r1 r2 have c: "s1 = sc" "s2 = nc" "pf2 = r"
    "\<not> (sc < 1 \<or> sc > NRB_MAXSECT)" "\<not> (nc < 1 \<or> nc > NRB_MAXNOTE)"
    by (auto simp: parse_counts_def split: if_splits)
  from readUint16_strip [OF r1] c obtain p1 where p1: "pf = p1 @ pf1" "length p1 = 2"
    "nrb_readUint16 p1 = (sc, [])" by auto
  from readUint32_strip [OF r2] c obtain p2 where p2: "pf1 = p2 @ pf2" "length p2 = 4"
    "nrb_readUint32 p2 = (nc, [])" by auto
  have a1: "nrb_readUint16 (p1 @ t) = (sc, t)" for t
    using readUint16_app [of p1 t] p1(3) c by simp
  have "parse_counts (p1 @ p2) = (Some (sc, nc), [])"
    unfolding parse_counts_def using c by (simp add: a1 p2(3))
  moreover have "pf = (p1 @ p2) @ r" by (simp add: p1(1) p2(1) c)
  ultimately show ?thesis using p1(2) p2(2)
    by (intro exI [of _ "p1 @ p2"]) simp
qed

lemma parse_reserved_strip:
  assumes "parse_reserved pf = (True, r)"
  shows "\<exists>p. pf = p @ r \<and> length p = 16 \<and> parse_reserved p = (True, [])"
proof -
  obtain s1 pf1 where r1: "nrb_readUint32 pf = (s1, pf1)" by (cases "nrb_readUint32 pf")
  obtain s2 pf2 where r2: "nrb_readUint32 pf1 = (s2, pf2)" by (cases "nrb_readUint32 pf1")
  obtain s3 pf3 where r3: "nrb_readUint32 pf2 = (s3, pf3)" by (cases "nrb_readUint32 pf2")
  obtain s4 pf4 where r4: "nrb_readUint32 pf3 = (s4, pf4)" by (cases "nrb_readUint32 pf3")
  from assms r1 r2 r3 r4 have c: "0 \<le> s1" "0 \<le> s2" "0 \<le> s3" "0 \<le> s4" "pf4 = r"
    by (auto simp: parse_reserved_def split: if_splits)
  from readUint32_strip [OF r1] c obtain p1 where p1: "pf = p1 @ pf1" "length p1 = 4"
    "nrb_readUint32 p1 = (s1, [])" by auto
  from readUint32_strip [OF r2] c obtain p2 where p2: "pf1 = p2 @ pf2" "length p2 = 4"
    "nrb_readUint32 p2 = (s2, [])" by auto
  from readUint32_strip [OF r3] c obtain p3 where p3: "pf2 = p3 @ pf3" "length p3 = 4"
    "nrb_readUint32 p3 = (s3, [])" by auto
  from readUint32_strip [OF r4] c obtain p4 where p4: "pf3 = p4 @ pf4" "length p4 = 4"
    "nrb_readUint32 p4 = (s4, [])" by auto
  have a1: "nrb_readUint32 (p1 @ t) = (s1, t)" for t
    using readUint32_app [of p1 t] p1(3) c by simp
  have a2: "nrb_readUint32 (p2 @ t) = (s2, t)" for t
    using readUint32_app [of p2 t] p2(3) c by simp
  have a3: "nrb_readUint32 (p3 @ t) = (s3, t)" for t
    using readUint32_app [of p3 t] p3(3) c by simp
  have "parse_reserved (p1 @ p2 @ p3 @ p4) = (True, [])"
    unfolding parse_reserved_def using c by (simp add: a1 a2 a3 p4(3))
  moreover have "pf = (p1 @ p2 @ p3 @ p4) @ r"
    by (simp add: p1(1) p2(1) p3(1) p4(1) c)
  ultimately show ?thesis using p1(2) p2(2) p3(2) p4(2)
    by (intro exI [of _ "p1 @ p2 @ p3 @ p4"]) simp
qed

lemma parse_sect_loop_strip:
  assumes "parse_sect_loop k i ps pf = (Some ps', r)" and "i + k \<le> length ps"
  shows "\<exists>p. pf = p @ r \<and> length p = 8 * k \<and> parse_sect_loop k i ps p = (Some ps', [])"
  using assms
proof (induction k arbitrary: i ps pf)
  case 0
  then show ?case by simp
next
  case (Suc k)
  obtain v pf1 where rd: "nrb_readUint64 pf = (v, pf1)" by (cases "nrb_readUint64 pf")
  from Suc.prems have il: "i < length ps" by simp
  from Suc.prems rd il have nn: "0 \<le> sint v"
    by (auto simp: Let_def split: if_splits)
  from Suc.prems rd il nn have rest: "parse_sect_loop k (Suc i) (ps[i := v]) pf1 = (Some ps', r)"
    by (auto simp: Let_def split: if_splits)
  from readUint64_strip [OF rd nn] obtain p1 where p1: "pf = p1 @ pf1" "length p1 = 8"
    "nrb_readUint64 p1 = (v, [])" by blast
  from Suc.prems have "Suc i + k \<le> length (ps[i := v])" by simp
  from Suc.IH [OF rest this] obtain p2 where p2: "pf1 = p2 @ r" "length p2 = 8 * k"
    "parse_sect_loop k (Suc i) (ps[i := v]) p2 = (Some ps', [])" by blast
  have a1: "nrb_readUint64 (p1 @ t) = (v, t)" for t
    using readUint64_app [of p1 t] p1(3) nn by simp
  have "parse_sect_loop (Suc k) i ps (p1 @ p2) = (Some ps', [])"
    using Suc.prems(1) rd il nn p2(3) by (auto simp: a1 Let_def split: if_splits)
  moreover have "pf = (p1 @ p2) @ r" by (simp add: p1(1) p2(1))
  ultimately show ?case using p1(2) p2(2)
    by (intro exI [of _ "p1 @ p2"]) simp
qed

lemma parse_note_strip:
  assumes "parse_note sc ps pf = Inr (Some n, r)"
  shows "\<exists>p. pf = p @ r \<and> length p = 24 \<and> parse_note sc ps p = Inr (Some n, [])"
proof -
  obtain st pf1 where r1: "nrb_readUint64 pf = (st, pf1)" by (cases "nrb_readUint64 pf")
  obtain rl pf2 where r2: "nrb_readUint64 pf1 = (rl, pf2)" by (cases "nrb_readUint64 pf1")
  from assms r1 have c1: "0 \<le> sint st"
    by (auto simp: parse_note_def split: if_splits)
  from assms r1 r2 c1 have c2: "sint st < sint rl"
    by (auto simp: parse_note_def split: if_splits)
  from c1 c2 have c2': "0 \<le> sint rl" by simp
  obtain ok v pf3 where r3: "nrb_readBias8 pf2 = Inr (ok, v, pf3)"
    using assms r1 r2 c1 c2
    by (cases "nrb_readBias8 pf2") (auto simp: parse_note_def)
  from assms r1 r2 r3 c1 c2 have c3: "ok \<noteq> 0" "NRB_MINPITCH \<le> v" "v \<le> NRB_MAXPITCH"
    by (auto simp: parse_note_def split: if_splits)
  obtain a pf4 where r4: "nrb_readByte pf3 = (a, pf4)" by (cases "nrb_readByte pf3")
  obtain u pf5 where r5: "nrb_readUint16 pf4 = (u, pf5)" by (cases "nrb_readUint16 pf4")
  obtain s pf6 where r6: "nrb_readUint16 pf5 = (s, pf6)" by (cases "nrb_readUint16 pf5")
  obtain l pf7 where r7: "nrb_readUint16 pf6 = (l, pf7)" by (cases "nrb_readUint16 pf6")
  from assms(1) r1 r2 r3 r4 r5 r6 r7 c1 c2 c3
  have c4: "0 \<le> a" "a AND 0x3f \<le> NRB_MAXART" and c5: "0 \<le> u" "u \<le> NRB_MAXRAMP"
    and c6: "0 \<le> s" "s < sc" and c7: "0 \<le> l" and e: "pf7 = r"
    and n: "n = \<lparr>start = st, release = rl, pitch = word_of_int v, art = word_of_int a,
                ramp = word_of_int u, sect = word_of_int s, layer_i = word_of_int l\<rparr>"
    and c8: "\<not> sint st < sint (ps ! unat (word_of_int s :: 16 word))"
    by (auto simp: parse_note_def split: if_splits)
  from readUint64_strip [OF r1 c1] obtain p1 where p1: "pf = p1 @ pf1" "length p1 = 8"
    "nrb_readUint64 p1 = (st, [])" by blast
  from readUint64_strip [OF r2 c2'] obtain p2 where p2: "pf1 = p2 @ pf2" "length p2 = 8"
    "nrb_readUint64 p2 = (rl, [])" by blast
  from readBias8_strip [OF r3 c3(1)] obtain p3 where p3: "pf2 = p3 @ pf3" "length p3 = 1"
    "nrb_readBias8 p3 = Inr (ok, v, [])" by blast
  from readByte_strip [OF r4 c4(1)] obtain p4 where p4: "pf3 = p4 @ pf4" "length p4 = 1"
    "nrb_readByte p4 = (a, [])" by blast
  from readUint16_strip [OF r5 c5(1)] obtain p5 where p5: "pf4 = p5 @ pf5" "length p5 = 2"
    "nrb_readUint16 p5 = (u, [])" by blast
  from readUint16_strip [OF r6 c6(1)] obtain p6 where p6: "pf5 = p6 @ pf6" "length p6 = 2"
    "nrb_readUint16 p6 = (s, [])" by blast
  from readUint16_strip [OF r7 c7] obtain p7 where p7: "pf6 = p7 @ pf7" "length p7 = 2"
    "nrb_readUint16 p7 = (l, [])" by blast
  have a1: "nrb_readUint64 (p1 @ t) = (st, t)" for t
    using readUint64_app [of p1 t] p1(3) c1 by simp
  have a2: "nrb_readUint64 (p2 @ t) = (rl, t)" for t
    using readUint64_app [of p2 t] p2(3) c2' by simp
  have a3: "nrb_readBias8 (p3 @ t) = Inr (ok, v, t)" for t
    using readBias8_app [OF p3(3) c3(1), of t] by simp
  have a4: "nrb_readByte (p4 @ t) = (a, t)" for t
    using readByte_app [of p4 t] p4(3) c4 by simp
  have a5: "nrb_readUint16 (p5 @ t) = (u, t)" for t
    using readUint16_app [of p5 t] p5(3) c5 by simp
  have a6: "nrb_readUint16 (p6 @ t) = (s, t)" for t
    using readUint16_app [of p6 t] p6(3) c6 by simp
  have "parse_note sc ps (p1 @ p2 @ p3 @ p4 @ p5 @ p6 @ p7) = Inr (Some n, [])"
    unfolding parse_note_def
    using c1 c2 c3 c4 c5 c6 c7 c8 by (simp add: a1 a2 a3 a4 a5 a6 p7(3) n)
  moreover have "pf = (p1 @ p2 @ p3 @ p4 @ p5 @ p6 @ p7) @ r"
    by (simp add: p1(1) p2(1) p3(1) p4(1) p5(1) p6(1) p7(1) e)
  ultimately show ?thesis using p1(2) p2(2) p3(2) p4(2) p5(2) p6(2) p7(2)
    by (intro exI [of _ "p1 @ p2 @ p3 @ p4 @ p5 @ p6 @ p7"]) simp
qed

lemma parse_note_loop_strip:
  assumes "parse_note_loop k i sc ps pn pf = Inr (Some pn', r)"
  shows "\<exists>p. pf = p @ r \<and> length p = 24 * k \<and>
             parse_note_loop k i sc ps pn p = Inr (Some pn', [])"
  using assms
proof (induction k arbitrary: i pn pf)
  case 0
  then show ?case by simp
next
  case (Suc k)
  from Suc.prems obtain n pf1 where n: "parse_note sc ps pf = Inr (Some n, pf1)"
    and rest: "parse_note_loop k (Suc i) sc ps (pn[i := n]) pf1 = Inr (Some pn', r)"
    by (auto split: sum.splits option.splits prod.splits)
  from parse_note_strip [OF n] obtain p1 where p1: "pf = p1 @ pf1" "length p1 = 24"
    "parse_note sc ps p1 = Inr (Some n, [])" by blast
  from Suc.IH [OF rest] obtain p2 where p2: "pf1 = p2 @ r" "length p2 = 24 * k"
    "parse_note_loop k (Suc i) sc ps (pn[i := n]) p2 = Inr (Some pn', [])" by blast
  have "parse_note sc ps (p1 @ p2) = Inr (Some n, p2)"
    using parse_note_app [OF p1(3), of p2] by simp
  then have "parse_note_loop (Suc k) i sc ps pn (p1 @ p2) = Inr (Some pn', [])"
    using p2(3) by simp
  moreover have "pf = (p1 @ p2) @ r" by (simp add: p1(1) p2(1))
  ultimately show ?case using p1(2) p2(2)
    by (intro exI [of _ "p1 @ p2"]) simp
qed

lemma nrb_parse_strip:
  assumes "nrb_parse pf = Inr (ver, Some pd, r)"
  shows "\<exists>p. pf = p @ r \<and>
             length p = 32 + 8 * nat (sect_count pd) + 24 * nat (note_count pd) \<and>
             nrb_parse p = Inr (ver, Some pd, [])"
proof -
  from assms obtain pf1 sc nc pf2 pf3 ps pf4 pn where
    v: "parse_version pf = (ver, True, pf1)" and
    c: "parse_counts pf1 = (Some (sc, nc), pf2)" and
    rs: "parse_reserved pf2 = (True, pf3)" and
    s: "parse_sect_loop (nat sc) 0 (replicate (nat sc) 0) pf3 = (Some ps, pf4)" and
    n: "parse_note_loop (nat nc) 0 sc ps (replicate (nat nc) zero_note) pf4 = Inr (Some pn, r)" and
    pd: "pd = \<lparr>sect_count = sc, sect_cap = sc, note_count = nc, note_cap = nc,
               pSect = ps, pNote = pn\<rparr>"
    by (rule nrb_parse_success)
  from parse_version_strip [OF v] obtain p1 where p1: "pf = p1 @ pf1" "length p1 = 10"
    "parse_version p1 = (ver, True, [])" by blast
  from parse_counts_strip [OF c] obtain p2 where p2: "pf1 = p2 @ pf2" "length p2 = 6"
    "parse_counts p2 = (Some (sc, nc), [])" by blast
  from parse_reserved_strip [OF rs] obtain p3 where p3: "pf2 = p3 @ pf3" "length p3 = 16"
    "parse_reserved p3 = (True, [])" by blast
  have "0 + nat sc \<le> length (replicate (nat sc) (0 :: 64 word))" by simp
  from parse_sect_loop_strip [OF s this] obtain p4 where p4: "pf3 = p4 @ pf4"
    "length p4 = 8 * nat sc"
    "parse_sect_loop (nat sc) 0 (replicate (nat sc) 0) p4 = (Some ps, [])" by blast
  from parse_note_loop_strip [OF n] obtain p5 where p5: "pf4 = p5 @ r"
    "length p5 = 24 * nat nc"
    "parse_note_loop (nat nc) 0 sc ps (replicate (nat nc) zero_note) p5 = Inr (Some pn, [])"
    by blast
  have a1: "parse_version (p1 @ t) = (ver, True, t)" for t
    using parse_version_app [OF p1(3), of t] by simp
  have a2: "parse_counts (p2 @ t) = (Some (sc, nc), t)" for t
    using parse_counts_app [OF p2(3), of t] by simp
  have a3: "parse_reserved (p3 @ t) = (True, t)" for t
    using parse_reserved_app [OF p3(3), of t] by simp
  have a4: "parse_sect_loop (nat sc) 0 (replicate (nat sc) 0) (p4 @ t) = (Some ps, t)" for t
    using parse_sect_loop_app [OF p4(3), of t] by simp
  have "nrb_parse (p1 @ p2 @ p3 @ p4 @ p5) = Inr (ver, Some pd, [])"
    unfolding nrb_parse_def by (simp add: a1 a2 a3 a4 p5(3) pd)
  moreover have "pf = (p1 @ p2 @ p3 @ p4 @ p5) @ r"
    by (simp add: p1(1) p2(1) p3(1) p4(1) p5(1))
  ultimately show ?thesis using p1(2) p2(2) p3(2) p4(2) p5(2)
    by (intro exI [of _ "p1 @ p2 @ p3 @ p4 @ p5"]) (simp add: pd)
qed

section \<open>The file of scenario B\<close>

lemma scenario_stream_zero:
  "scenario_stream (replicate 16 0) = example_stream"
  by code_simp

lemma scenario_version:
  "parse_version (be32 (word_of_int NRB_SIGPRI) @ be32 (word_of_int NRB_SIGSEC) @ [1, 1] @ Z)
     = (NRB_VER_MINOR, True, Z)"
proof -
  have "parse_version (be32 (word_of_int NRB_SIGPRI) @ be32 (word_of_int NRB_SIGSEC) @ [1, 1])
          = (NRB_VER_MINOR, True, [])" by code_simp
  from parse_version_app [OF this, of Z] show ?thesis by simp
qed

lemma scenario_counts:
  "parse_counts (be16 1 @ be32 1 @ Z) = (Some (1, 1), Z)"
proof -
  have "parse_counts (be16 1 @ be32 1) = (Some (1, 1), [])" by code_simp
  from parse_counts_app [OF this, of Z] show ?thesis by simp
qed

lemma scenario_parse:
  assumes "reserved_ok r"
  shows "nrb_parse (scenario_stream r @ extra) = Inr (NRB_VER_MINOR, Some example_doc, extra)"
proof -
  let ?body = "be64 0 @ enc_note example_note @ extra"
  have after: "nrb_parse (scenario_stream q @ extra) =
         (case parse_sect_loop (nat 1) 0 (replicate (nat 1) 0) ?body of
            (None, pf4) \<Rightarrow> Inr (NRB_VER_MINOR, None, pf4)
          | (Some ps, pf4) \<Rightarrow>
         (case parse_note_loop (nat 1) 0 1 ps (replicate (nat 1) zero_note) pf4 of
            Inl e \<Rightarrow> Inl e
          | Inr (None, pf5) \<Rightarrow> Inr (NRB_VER_MINOR, None, pf5)
          | Inr (Some pn, pf5) \<Rightarrow>
              Inr (NRB_VER_MINOR,
                   Some \<lparr>sect_count = 1, sect_cap = 1, note_count = 1, note_cap = 1,
                         pSect = ps, pNote = pn\<rparr>,
                   pf5)))" if q: "reserved_ok q" for q
  proof -
    from q have l: "length q = 16" by (simp add: reserved_ok_def)
    have a: "parse_version (scenario_stream q @ extra) =
               (NRB_VER_MINOR, True, be16 1 @ be32 1 @ q @ ?body)"
      using scenario_version [of "be16 1 @ be32 1 @ q @ ?body"]
      by (simp add: scenario_stream_def)
    have b: "parse_counts (be16 1 @ be32 1 @ q @ ?body) = (Some (1, 1), q @ ?body)"
      by (rule scenario_counts)
    from parse_reserved_prefix [OF l, of ?body] q
    have c: "parse_reserved (q @ ?body) = (True, ?body)"
      by (cases "parse_reserved (q @ ?body)") simp
    from a b c show ?thesis by (rule nrb_parse_after_reserved)
  qed
  have z: "reserved_ok (replicate 16 0)" by code_simp
  have "nrb_parse (scenario_stream r @ extra) = nrb_parse (scenario_stream (replicate 16 0) @ extra)"
    unfolding after [OF assms] after [OF z] ..
  also have "\<dots> = Inr (NRB_VER_MINOR, Some example_doc, extra)"
    using nrb_parse_app [OF example_parse, of extra] by (simp add: scenario_stream_zero)
  finally show ?thesis .
qed

lemma scenario_parse_fail:
  assumes l: "length r = 16" and q: "\<not> reserved_ok r"
  shows "parse_outcome (scenario_stream r @ extra) = Some (NRB_VER_MINOR, None)"
proof -
  let ?body = "be64 0 @ enc_note example_note @ extra"
  have a: "parse_version (scenario_stream r @ extra) =
             (NRB_VER_MINOR, True, be16 1 @ be32 1 @ r @ ?body)"
    using scenario_version [of "be16 1 @ be32 1 @ r @ ?body"]
    by (simp add: scenario_stream_def)
  have b: "parse_counts (be16 1 @ be32 1 @ r @ ?body) = (Some (1, 1), r @ ?body)"
    by (rule scenario_counts)
  from parse_reserved_prefix [OF l, of ?body] q
  obtain f where c: "parse_reserved (r @ ?body) = (False, f)"
    by (cases "parse_reserved (r @ ?body)") simp
  from a b c have "nrb_parse (scenario_stream r @ extra) = Inr (NRB_VER_MINOR, None, f)"
    by (simp add: nrb_parse_def)
  then show ?thesis by (simp add: parse_outcome_def)
qed

lemma example_doc_reads:
  "nrb_notes example_doc = 1" "nrb_sections example_doc = 1"
  "nrb_offset example_doc 0 = Inr 0" "nrb_get example_doc 0 = Inr example_note"
  by (simp_all add: nrb_notes_def nrb_sections_def nrb_offset_def nrb_get_def example_doc_def)

section \<open>Round trip\<close>

text \<open>
  C1. For every validly constructed document with at least one note, \<open>nrb_serialize\<close>
  succeeds, and \<open>nrb_parse\<close> on the bytes it wrote returns a document with version status
  \<open>NRB_VER_OK\<close>, the same section count and note count, the same section table and the
  same note table in the same order, and reads the bytes to their end.
\<close>

theorem serialize_parse_roundtrip:
  assumes "constructed pd" and "0 < nrb_notes pd"
  shows "\<exists>bytes pd'. nrb_serialize pd [] = Inr (1, bytes) \<and>
           nrb_parse bytes = Inr (NRB_VER_OK, Some pd', []) \<and>
           nrb_sections pd' = nrb_sections pd \<and> nrb_notes pd' = nrb_notes pd \<and>
           sections_of pd' = sections_of pd \<and> notes_of pd' = notes_of pd"
proof -
  from assms(1) have inv: "doc_inv pd" by (rule constructed_inv)
  from assms(2) have pos: "0 < note_count pd" by (simp add: nrb_notes_def)
  define pd' where "pd' = \<lparr>sect_count = sect_count pd, sect_cap = sect_count pd,
                      note_count = note_count pd, note_cap = note_count pd,
                      pSect = sections_of pd, pNote = notes_of pd\<rparr>"
  have w: "nrb_serialize pd [] = Inr (1, enc_doc pd)"
    using nrb_serialize_enc [OF pos, of "[]"] by simp
  have p: "nrb_parse (enc_doc pd) = Inr (NRB_VER_OK, Some pd', [])"
    using nrb_parse_enc_doc [OF inv pos, of "[]"] by (simp add: pd'_def)
  have "sections_of pd' = sections_of pd" "notes_of pd' = notes_of pd"
    by (simp_all add: pd'_def sections_of_def notes_of_def)
  moreover have "nrb_sections pd' = nrb_sections pd" "nrb_notes pd' = nrb_notes pd"
    by (simp_all add: pd'_def nrb_sections_def nrb_notes_def)
  ultimately show ?thesis using w p by blast
qed

theorem serialize_parse_roundtrip_witness:
  "constructed example_doc \<and> 0 < nrb_notes example_doc \<and>
   (\<exists>bytes pd'. nrb_serialize example_doc [] = Inr (1, bytes) \<and>
      nrb_parse bytes = Inr (NRB_VER_OK, Some pd', []) \<and>
      nrb_sections pd' = nrb_sections example_doc \<and> nrb_notes pd' = nrb_notes example_doc \<and>
      sections_of pd' = sections_of example_doc \<and> notes_of pd' = notes_of example_doc)"
proof -
  have c: "constructed example_doc" by (rule example_constructed)
  have n: "0 < nrb_notes example_doc" by (simp add: nrb_notes_def example_doc_def)
  from serialize_parse_roundtrip [OF c n] c n show ?thesis by simp
qed

section \<open>The reserved fields\<close>

text \<open>
  C2, as amended. A file is sixteen bytes up to the note count, the sixteen bytes of the
  four reserved fields, and the rest. Two files that differ only in the reserved bytes
  give the same version status and the same document (or both none) provided each of
  the four fields has its top bit clear in both, that is holds at most \<open>2^31 - 1\<close>.
  A reserved field with its top bit set fails the parse, all sixteen bytes being there:
  \<open>nrb_readUint32\<close> returns \<open>-1\<close> for it as it does for a read failure.
\<close>

theorem reserved_fields_ignored:
  assumes "length hdr = 16"
  shows "(reserved_ok r \<and> reserved_ok r' \<longrightarrow>
            parse_outcome (hdr @ r @ rest) = parse_outcome (hdr @ r' @ rest)) \<and>
         (length r = 16 \<and> \<not> reserved_ok r \<longrightarrow>
            (\<exists>ver. parse_outcome (hdr @ r @ rest) = Some (ver, None)))"
proof -
  from header_split [OF assms]
  consider (bad) ver where "\<And>Z. \<exists>f. nrb_parse (hdr @ Z) = Inr (ver, None, f)"
    | (good) ver sc nc where "\<And>Z. \<exists>pf1. parse_version (hdr @ Z) = (ver, True, pf1) \<and>
                                 parse_counts pf1 = (Some (sc, nc), Z)"
    by blast
  then show ?thesis
  proof cases
    case bad
    have "parse_outcome (hdr @ Z) = Some (ver, None)" for Z
      using bad [of Z] by (auto simp: parse_outcome_def)
    then show ?thesis by simp
  next
    case good
    have ok: "nrb_parse (hdr @ q @ rest) =
         (case parse_sect_loop (nat sc) 0 (replicate (nat sc) 0) rest of
            (None, pf4) \<Rightarrow> Inr (ver, None, pf4)
          | (Some ps, pf4) \<Rightarrow>
         (case parse_note_loop (nat nc) 0 sc ps (replicate (nat nc) zero_note) pf4 of
            Inl e \<Rightarrow> Inl e
          | Inr (None, pf5) \<Rightarrow> Inr (ver, None, pf5)
          | Inr (Some pn, pf5) \<Rightarrow>
              Inr (ver,
                   Some \<lparr>sect_count = sc, sect_cap = sc, note_count = nc, note_cap = nc,
                         pSect = ps, pNote = pn\<rparr>,
                   pf5)))" if q: "reserved_ok q" for q
    proof -
      from q have l: "length q = 16" by (simp add: reserved_ok_def)
      from good [of "q @ rest"] obtain pf1
        where a: "parse_version (hdr @ q @ rest) = (ver, True, pf1)"
          and b: "parse_counts pf1 = (Some (sc, nc), q @ rest)" by blast
      from parse_reserved_prefix [OF l, of rest] q
      have c: "parse_reserved (q @ rest) = (True, rest)"
        by (cases "parse_reserved (q @ rest)") simp
      from a b c show ?thesis by (rule nrb_parse_after_reserved)
    qed
    have no: "\<exists>f. nrb_parse (hdr @ q @ rest) = Inr (ver, None, f)"
      if l: "length q = 16" and q: "\<not> reserved_ok q" for q
    proof -
      from good [of "q @ rest"] obtain pf1
        where a: "parse_version (hdr @ q @ rest) = (ver, True, pf1)"
          and b: "parse_counts pf1 = (Some (sc, nc), q @ rest)" by blast
      from parse_reserved_prefix [OF l, of rest] q
      obtain f where c: "parse_reserved (q @ rest) = (False, f)"
        by (cases "parse_reserved (q @ rest)") simp
      from a b c show ?thesis by (simp add: nrb_parse_def)
    qed
    show ?thesis
    proof (intro conjI impI)
      assume "reserved_ok r \<and> reserved_ok r'"
      then show "parse_outcome (hdr @ r @ rest) = parse_outcome (hdr @ r' @ rest)"
        by (simp add: parse_outcome_def ok)
    next
      assume "length r = 16 \<and> \<not> reserved_ok r"
      with no [of r] show "\<exists>ver. parse_outcome (hdr @ r @ rest) = Some (ver, None)"
        by (auto simp: parse_outcome_def)
    qed
  qed
qed

theorem reserved_fields_ignored_witness:
  "length (take 16 example_stream) = 16 \<and>
   reserved_ok (replicate 16 0) \<and> reserved_ok [1, 2, 3, 4, 5, 6, 7, 8, 9, 10, 11, 12, 13, 14, 15, 16] \<and>
   parse_outcome (take 16 example_stream @ replicate 16 0 @ drop 32 example_stream)
     = Some (NRB_VER_MINOR, Some example_doc) \<and>
   parse_outcome (take 16 example_stream @ [1, 2, 3, 4, 5, 6, 7, 8, 9, 10, 11, 12, 13, 14, 15, 16] @
                  drop 32 example_stream)
     = Some (NRB_VER_MINOR, Some example_doc)"
proof -
  have l: "length (take 16 example_stream) = 16" by code_simp
  have a: "reserved_ok (replicate 16 0)" by code_simp
  have b: "reserved_ok [1, 2, 3, 4, 5, 6, 7, 8, 9, 10, 11, 12, 13, 14, 15, 16]" by code_simp
  have c: "parse_outcome (take 16 example_stream @ replicate 16 0 @ drop 32 example_stream)
             = Some (NRB_VER_MINOR, Some example_doc)" by code_simp
  from reserved_fields_ignored [OF l, of "replicate 16 0"
      "[1, 2, 3, 4, 5, 6, 7, 8, 9, 10, 11, 12, 13, 14, 15, 16]" "drop 32 example_stream"] a b c
  show ?thesis using l by simp
qed

theorem reserved_top_bit_counterexample:
  "length (example_stream[16 := 0x80]) = length example_stream \<and>
   take 16 (example_stream[16 := 0x80]) = take 16 example_stream \<and>
   drop 32 (example_stream[16 := 0x80]) = drop 32 example_stream \<and>
   parse_outcome example_stream = Some (NRB_VER_MINOR, Some example_doc) \<and>
   parse_outcome (example_stream[16 := 0x80]) = Some (NRB_VER_MINOR, None)"
  by code_simp

section \<open>Validation of the section table\<close>

text \<open>
  C3, as amended. Once \<open>nrb_parse\<close> has read the version, the counts and the reserved
  fields, it reads \<open>sect_count\<close> entries of eight bytes each, big-endian. If fewer
  than \<open>8 * sect_count\<close> bytes are left, the parse fails. Otherwise, writing \<open>vs\<close> for
  the entries as unsigned 64-bit values: if the first is 0, none is less than its
  predecessor and none exceeds \<open>NRB_MAXUINT64 = 2^63 - 1\<close>, the table is accepted and
  stored as read, and the file stands right after it; if not, the parse fails. So an entry
  with its top bit set is rejected, although it breaks neither ordering rule.
\<close>

theorem section_table_validation:
  assumes "parse_version pf = (ver, True, pf1)"
    and "parse_counts pf1 = (Some (sc, nc), pf2)"
    and "parse_reserved pf2 = (True, pf3)"
  shows "(length pf3 < 8 * nat sc \<longrightarrow> (\<exists>r. nrb_parse pf = Inr (ver, None, r))) \<and>
         (\<forall>vs t. pf3 = concat (map be64 vs) @ t \<and> length vs = nat sc \<longrightarrow>
            (sect_table_ok vs \<longrightarrow>
               parse_sect_loop (nat sc) 0 (replicate (nat sc) 0) pf3 = (Some vs, t)) \<and>
            (\<not> sect_table_ok vs \<longrightarrow> (\<exists>r. nrb_parse pf = Inr (ver, None, r))))"
proof (intro conjI allI impI)
  assume "length pf3 < 8 * nat sc"
  then have "fst (parse_sect_loop (nat sc) 0 (replicate (nat sc) 0) pf3) = None"
    by (rule parse_sect_loop_short) simp
  with assms show "\<exists>r. nrb_parse pf = Inr (ver, None, r)"
    by (rule nrb_parse_sections_fail)
next
  fix vs t
  assume a: "pf3 = concat (map be64 vs) @ t \<and> length vs = nat sc" and ok: "sect_table_ok vs"
  from ok have "sect_table_inv vs" by (simp add: sect_table_ok_iff)
  from parse_sect_loop_enc [OF this, of t] a
  show "parse_sect_loop (nat sc) 0 (replicate (nat sc) 0) pf3 = (Some vs, t)"
    by simp
next
  fix vs t
  assume a: "pf3 = concat (map be64 vs) @ t \<and> length vs = nat sc" and bad: "\<not> sect_table_ok vs"
  from parse_counts_range [OF assms(2)] a have ne: "vs \<noteq> []" by auto
  from bad have "\<not> sect_table_inv vs" by (simp add: sect_table_ok_iff)
  from parse_sect_loop_enc_fail [OF ne this, of t] a
  have "fst (parse_sect_loop (nat sc) 0 (replicate (nat sc) 0) pf3) = None"
    by simp
  with assms show "\<exists>r. nrb_parse pf = Inr (ver, None, r)"
    by (rule nrb_parse_sections_fail)
qed

theorem section_table_validation_witness:
  "parse_version example_stream = (NRB_VER_MINOR, True, drop 10 example_stream) \<and>
   parse_counts (drop 10 example_stream) = (Some (1, 1), drop 16 example_stream) \<and>
   parse_reserved (drop 16 example_stream) = (True, drop 32 example_stream) \<and>
   sect_table_ok [0] \<and>
   parse_sect_loop (nat 1) 0 (replicate (nat 1) 0) (drop 32 example_stream)
     = (Some [0], drop 40 example_stream)"
proof -
  have ok: "sect_table_ok [0]" by (simp add: sect_table_ok_def NRB_MAXUINT64_def)
  from section_table_validation [OF example_stages(1,2,3)]
  have "drop 32 example_stream = concat (map be64 [0]) @ drop 40 example_stream \<and>
          length [0 :: 64 word] = nat 1 \<longrightarrow>
        sect_table_ok [0] \<longrightarrow>
        parse_sect_loop (nat 1) 0 (replicate (nat 1) 0) (drop 32 example_stream)
          = (Some [0], drop 40 example_stream)"
    by blast
  with ok example_stages show ?thesis by simp
qed

theorem section_table_full_range_counterexample:
  "hd [0, 0x8000000000000000 :: 64 word] = 0 \<and> sorted [0, 0x8000000000000000 :: 64 word] \<and>
   fst (parse_sect_loop 2 0 (replicate 2 0)
          (concat (map be64 [0, 0x8000000000000000]) @ enc_note example_note)) = None \<and>
   nrb_parse bad_section_stream = Inr (NRB_VER_OK, None, enc_note example_note)"
  by code_simp

section \<open>Reference integrity\<close>

text \<open>
  C4. In every validly constructed document (parsed, or built from \<open>nrb_alloc\<close> by
  calls of \<open>nrb_sect\<close>, \<open>nrb_append\<close>, \<open>nrb_set\<close> and \<open>nrb_sort\<close> that returned), every
  note read with \<open>nrb_get\<close> names a section below the section count, and starts at or
  after the offset that \<open>nrb_offset\<close> gives for that section.
\<close>

theorem reference_integrity:
  assumes "constructed pd" and "0 \<le> i" and "i < nrb_notes pd"
  shows "\<exists>pn off. nrb_get pd i = Inr pn \<and> uint (sect pn) < nrb_sections pd \<and>
           nrb_offset pd (uint (sect pn)) = Inr off \<and> sint off \<le> sint (start pn)"
proof -
  from assms(1) have inv: "doc_inv pd" by (rule constructed_inv)
  from assms(2,3) have g: "nrb_get pd i = Inr (notes_of pd ! nat i)"
    by (simp add: nrb_get_notes_of nrb_notes_def)
  from inv have "note_count pd \<le> note_cap pd" "length (pNote pd) = nat (note_cap pd)"
    by (simp_all add: doc_inv_def)
  then have "length (notes_of pd) = nat (note_count pd)"
    by (simp add: notes_of_def)
  with assms(2,3) have "notes_of pd ! nat i \<in> set (notes_of pd)"
    by (simp add: nrb_notes_def)
  with inv have ok: "note_ok pd (notes_of pd ! nat i)" by (simp add: doc_inv_def)
  then have "nrb_offset pd (uint (sect (notes_of pd ! nat i)))
               = Inr (pSect pd ! unat (sect (notes_of pd ! nat i)))"
    by (simp add: note_ok_def nrb_offset_def)
  with g ok show ?thesis by (simp add: note_ok_def nrb_sections_def)
qed

theorem reference_integrity_witness:
  "constructed example_doc \<and> (0::int) \<le> 0 \<and> 0 < nrb_notes example_doc \<and>
   (\<exists>pn off. nrb_get example_doc 0 = Inr pn \<and> uint (sect pn) < nrb_sections example_doc \<and>
      nrb_offset example_doc (uint (sect pn)) = Inr off \<and> sint off \<le> sint (start pn))"
proof -
  have c: "constructed example_doc" by (rule example_constructed)
  have n: "0 < nrb_notes example_doc" by (simp add: nrb_notes_def example_doc_def)
  from reference_integrity [OF c _ n] c n show ?thesis by simp
qed

section \<open>Growth of the tables\<close>

text \<open>
  C5, as amended. Take any validly constructed document. Appending \<open>N\<close> notes that are
  valid for it, while the note count stays within \<open>NRB_MAXNOTE = 1048576\<close>, succeeds \<open>N\<close>
  times and raises the note count by exactly \<open>N\<close>, whatever the capacity was; the notes
  that were there and the new ones read back unchanged with \<open>nrb_get\<close>. Appending \<open>N\<close>
  section offsets that never decrease, while the section count stays within
  \<open>NRB_MAXSECT = 65535\<close>, succeeds \<open>N\<close> times and raises the section count by exactly
  \<open>N\<close>, and the offsets read back unchanged with \<open>nrb_offset\<close>. So from \<open>nrb_alloc\<close>
  the note count after \<open>N\<close> notes is \<open>N\<close>, and the section count after \<open>N\<close> sections
  is \<open>N + 1\<close>, section 0 being there from the start. With the count at its ceiling, a
  valid append returns 0 and leaves the document as it was.
\<close>

theorem growth_correct:
  assumes "constructed pd"
  shows
   "((\<forall>n \<in> set ns. note_ok pd n) \<and> nrb_notes pd + int (length ns) \<le> NRB_MAXNOTE \<longrightarrow>
       (\<exists>pd'. append_all pd ns = Inr (replicate (length ns) 1, pd') \<and>
          nrb_notes pd' = nrb_notes pd + int (length ns) \<and>
          notes_of pd' = notes_of pd @ ns \<and>
          sections_of pd' = sections_of pd \<and> (\<forall>n. note_ok pd' n = note_ok pd n) \<and>
          (\<forall>i. 0 \<le> i \<and> i < nrb_notes pd \<longrightarrow> nrb_get pd' i = nrb_get pd i) \<and>
          (\<forall>j < length ns. nrb_get pd' (nrb_notes pd + int j) = Inr (ns ! j)))) \<and>
    (sorted_wrt (\<lambda>a b. sint a \<le> sint b) (last (sections_of pd) # offs) \<and>
     nrb_sections pd + int (length offs) \<le> NRB_MAXSECT \<longrightarrow>
       (\<exists>pd'. sect_all pd offs = Inr (replicate (length offs) 1, pd') \<and>
          nrb_sections pd' = nrb_sections pd + int (length offs) \<and>
          sections_of pd' = sections_of pd @ offs \<and> notes_of pd' = notes_of pd \<and>
          (\<forall>i. 0 \<le> i \<and> i < nrb_sections pd \<longrightarrow> nrb_offset pd' i = nrb_offset pd i) \<and>
          (\<forall>j < length offs. nrb_offset pd' (nrb_sections pd + int j) = Inr (offs ! j)))) \<and>
    (note_ok pd pn \<and> nrb_notes pd = NRB_MAXNOTE \<longrightarrow> nrb_append pd pn = Inr (0, pd)) \<and>
    (sint (last (sections_of pd)) \<le> sint off \<and> nrb_sections pd = NRB_MAXSECT \<longrightarrow>
       nrb_sect pd off = Inr (0, pd))"
proof (intro conjI impI)
  from assms have inv: "doc_inv pd" by (rule constructed_inv)
  {
    assume a: "(\<forall>n \<in> set ns. note_ok pd n) \<and> nrb_notes pd + int (length ns) \<le> NRB_MAXNOTE"
    from inv have nn: "0 \<le> note_count pd" by (simp add: doc_inv_def)
    from a have "\<forall>n \<in> set ns. note_ok pd n" "note_count pd + int (length ns) \<le> NRB_MAXNOTE"
      by (simp_all add: nrb_notes_def)
    from append_all_ok [OF inv this]
    obtain pd' where pd': "append_all pd ns = Inr (replicate (length ns) 1, pd')"
      "note_count pd' = note_count pd + int (length ns)" "notes_of pd' = notes_of pd @ ns"
      "sect_count pd' = sect_count pd" "pSect pd' = pSect pd" "doc_inv pd'" by blast
    have l: "length (notes_of pd) = nat (note_count pd)" using inv by (rule notes_of_length)
    have g1: "nrb_get pd' i = nrb_get pd i" if "0 \<le> i \<and> i < nrb_notes pd" for i
    proof -
      from that have i: "0 \<le> i" "i < note_count pd" "i < note_count pd'"
        using pd'(2) by (simp_all add: nrb_notes_def)
      then have "nat i < length (notes_of pd)" using l by simp
      then have "notes_of pd' ! nat i = notes_of pd ! nat i"
        by (simp add: pd'(3) nth_append)
      with i show ?thesis by (simp add: nrb_get_notes_of)
    qed
    have g2: "nrb_get pd' (nrb_notes pd + int j) = Inr (ns ! j)" if "j < length ns" for j
    proof -
      from that nn have i: "0 \<le> note_count pd + int j" "note_count pd + int j < note_count pd'"
        using pd'(2) by simp_all
      have "nat (note_count pd + int j) = length (notes_of pd) + j"
        using nn l by (simp add: nat_add_distrib)
      then have "notes_of pd' ! nat (note_count pd + int j) = ns ! j"
        by (simp add: pd'(3))
      with i show ?thesis by (simp add: nrb_get_notes_of nrb_notes_def)
    qed
    have "sections_of pd' = sections_of pd" "\<forall>n. note_ok pd' n = note_ok pd n"
      using pd'(4,5) by (simp_all add: sections_of_def note_ok_def)
    with pd' g1 g2
    show "\<exists>pd'. append_all pd ns = Inr (replicate (length ns) 1, pd') \<and>
          nrb_notes pd' = nrb_notes pd + int (length ns) \<and>
          notes_of pd' = notes_of pd @ ns \<and>
          sections_of pd' = sections_of pd \<and> (\<forall>n. note_ok pd' n = note_ok pd n) \<and>
          (\<forall>i. 0 \<le> i \<and> i < nrb_notes pd \<longrightarrow> nrb_get pd' i = nrb_get pd i) \<and>
          (\<forall>j < length ns. nrb_get pd' (nrb_notes pd + int j) = Inr (ns ! j))"
      unfolding nrb_notes_def by blast
  }
  {
    assume a: "sorted_wrt (\<lambda>a b. sint a \<le> sint b) (last (sections_of pd) # offs) \<and>
               nrb_sections pd + int (length offs) \<le> NRB_MAXSECT"
    from inv have nn: "1 \<le> sect_count pd" by (simp add: doc_inv_def)
    from a have "sorted_wrt (\<lambda>a b. sint a \<le> sint b) (last (sections_of pd) # offs)"
      "sect_count pd + int (length offs) \<le> NRB_MAXSECT"
      by (simp_all add: nrb_sections_def)
    from sect_all_ok [OF inv this]
    obtain pd' where pd': "sect_all pd offs = Inr (replicate (length offs) 1, pd')"
      "sect_count pd' = sect_count pd + int (length offs)" "sections_of pd' = sections_of pd @ offs"
      "note_count pd' = note_count pd" "pNote pd' = pNote pd" "doc_inv pd'" by blast
    have l: "length (sections_of pd) = nat (sect_count pd)" using inv by (rule sections_of_length)
    have g1: "nrb_offset pd' i = nrb_offset pd i" if "0 \<le> i \<and> i < nrb_sections pd" for i
    proof -
      from that have i: "0 \<le> i" "i < sect_count pd" "i < sect_count pd'"
        using pd'(2) by (simp_all add: nrb_sections_def)
      then have "nat i < length (sections_of pd)" using l by simp
      then have "sections_of pd' ! nat i = sections_of pd ! nat i"
        by (simp add: pd'(3) nth_append)
      with i show ?thesis by (simp add: nrb_offset_sections_of)
    qed
    have g2: "nrb_offset pd' (nrb_sections pd + int j) = Inr (offs ! j)" if "j < length offs" for j
    proof -
      from that nn have i: "0 \<le> sect_count pd + int j" "sect_count pd + int j < sect_count pd'"
        using pd'(2) by simp_all
      have "nat (sect_count pd + int j) = length (sections_of pd) + j"
        using nn l by (simp add: nat_add_distrib)
      then have "sections_of pd' ! nat (sect_count pd + int j) = offs ! j"
        by (simp add: pd'(3))
      with i show ?thesis by (simp add: nrb_offset_sections_of nrb_sections_def)
    qed
    have "notes_of pd' = notes_of pd"
      using pd'(4,5) by (simp add: notes_of_def)
    with pd' g1 g2
    show "\<exists>pd'. sect_all pd offs = Inr (replicate (length offs) 1, pd') \<and>
          nrb_sections pd' = nrb_sections pd + int (length offs) \<and>
          sections_of pd' = sections_of pd @ offs \<and> notes_of pd' = notes_of pd \<and>
          (\<forall>i. 0 \<le> i \<and> i < nrb_sections pd \<longrightarrow> nrb_offset pd' i = nrb_offset pd i) \<and>
          (\<forall>j < length offs. nrb_offset pd' (nrb_sections pd + int j) = Inr (offs ! j))"
      unfolding nrb_sections_def by blast
  }
  {
    assume "note_ok pd pn \<and> nrb_notes pd = NRB_MAXNOTE"
    then show "nrb_append pd pn = Inr (0, pd)"
      by (intro nrb_append_full) (simp_all add: nrb_notes_def)
  }
  {
    assume a: "sint (last (sections_of pd)) \<le> sint off \<and> nrb_sections pd = NRB_MAXSECT"
    from inv have "sect_table_inv (sections_of pd)" by (simp add: doc_inv_def)
    then have "0 \<le> sint (last (sections_of pd))" by (simp add: sect_table_inv_def)
    with a have "0 \<le> sint off" by simp
    moreover from inv have "1 \<le> sect_count pd" by (simp add: doc_inv_def)
    moreover from a have "sint (pSect pd ! nat (sect_count pd - 1)) \<le> sint off"
      by (simp add: last_sections_of [OF inv])
    moreover from a have "\<not> sect_count pd < NRB_MAXSECT"
      by (simp add: nrb_sections_def)
    ultimately show "nrb_sect pd off = Inr (0, pd)"
      by (rule nrb_sect_full)
  }
qed

theorem growth_correct_witness:
  "constructed nrb_alloc \<and> note_ok nrb_alloc example_note \<and>
   (\<exists>pd'. append_all nrb_alloc (replicate 300 example_note) = Inr (replicate 300 1, pd') \<and>
          nrb_notes pd' = 300 \<and> nrb_get pd' 0 = Inr example_note \<and>
          nrb_get pd' 299 = Inr example_note) \<and>
   (\<exists>pd'. append_all nrb_alloc (replicate 1048576 example_note) = Inr (replicate 1048576 1, pd') \<and>
          nrb_notes pd' = 1048576 \<and> nrb_append pd' example_note = Inr (0, pd')) \<and>
   (\<exists>pd'. sect_all nrb_alloc (replicate 20 5) = Inr (replicate 20 1, pd') \<and>
          nrb_sections pd' = 21 \<and> nrb_offset pd' 0 = Inr 0 \<and> nrb_offset pd' 20 = Inr 5) \<and>
   (\<exists>pd'. sect_all nrb_alloc (replicate 65534 5) = Inr (replicate 65534 1, pd') \<and>
          nrb_sections pd' = 65535 \<and> nrb_sect pd' 5 = Inr (0, pd'))"
proof -
  note ok = example_note_ok_alloc
  have n0: "nrb_notes nrb_alloc = 0" and s0: "nrb_sections nrb_alloc = 1"
    by (simp_all add: nrb_notes_def nrb_sections_def nrb_alloc_def)
  have l0: "last (sections_of nrb_alloc) = 0"
    by (simp add: sections_of_alloc)
  have "nrb_offset nrb_alloc 0 = Inr (sections_of nrb_alloc ! nat 0)"
    by (rule nrb_offset_sections_of) (simp_all add: nrb_alloc_def)
  then have o0: "nrb_offset nrb_alloc 0 = Inr 0"
    by (simp add: sections_of_alloc)
  have "sorted_wrt (\<lambda>a b. sint a \<le> sint b) (replicate k (5 :: 64 word))" for k
    by (induction k) auto
  then have srt: "sorted_wrt (\<lambda>a b. sint a \<le> sint b) (0 # replicate k (5 :: 64 word))" for k
    by simp
  \<comment> \<open>three hundred notes, past the initial capacity of 256\<close>
  have h1: "(\<forall>n \<in> set (replicate 300 example_note). note_ok nrb_alloc n) \<and>
            nrb_notes nrb_alloc + int (length (replicate 300 example_note)) \<le> NRB_MAXNOTE"
    using ok by (simp add: n0 nrb_consts)
  from growth_correct [OF c_alloc, THEN conjunct1, rule_format, OF h1]
  obtain p1 where p1: "append_all nrb_alloc (replicate 300 example_note)
                         = Inr (replicate (length (replicate 300 example_note)) 1, p1)"
    "nrb_notes p1 = nrb_notes nrb_alloc + int (length (replicate 300 example_note))"
    "\<forall>j < length (replicate 300 example_note).
        nrb_get p1 (nrb_notes nrb_alloc + int j) = Inr (replicate 300 example_note ! j)"
    by blast
  from p1(3) [rule_format, of 0] p1(3) [rule_format, of 299]
  have "nrb_get p1 (nrb_notes nrb_alloc + int 0) = Inr (replicate 300 example_note ! 0)"
    "nrb_get p1 (nrb_notes nrb_alloc + int 299) = Inr (replicate 300 example_note ! 299)"
    by simp_all
  then have g1: "nrb_get p1 0 = Inr example_note" "nrb_get p1 299 = Inr example_note"
    by (simp_all add: n0)
  \<comment> \<open>the ceiling of the note table\<close>
  have h2: "(\<forall>n \<in> set (replicate 1048576 example_note). note_ok nrb_alloc n) \<and>
            nrb_notes nrb_alloc + int (length (replicate 1048576 example_note)) \<le> NRB_MAXNOTE"
    using ok by (simp add: n0 nrb_consts)
  from growth_correct [OF c_alloc, THEN conjunct1, rule_format, OF h2]
  obtain p2 where p2: "append_all nrb_alloc (replicate 1048576 example_note)
                         = Inr (replicate (length (replicate 1048576 example_note)) 1, p2)"
    "nrb_notes p2 = nrb_notes nrb_alloc + int (length (replicate 1048576 example_note))"
    "\<forall>n. note_ok p2 n = note_ok nrb_alloc n"
    by blast
  have c2: "constructed p2" using c_alloc p2(1) by (rule append_all_constructed)
  have "note_ok p2 example_note \<and> nrb_notes p2 = NRB_MAXNOTE"
    using p2(2,3) ok by (simp add: n0 nrb_consts)
  with growth_correct [OF c2, THEN conjunct2, THEN conjunct2, THEN conjunct1]
  have f2: "nrb_append p2 example_note = Inr (0, p2)" by blast
  \<comment> \<open>twenty sections, past the initial capacity of 16\<close>
  have h3: "sorted_wrt (\<lambda>a b. sint a \<le> sint b) (last (sections_of nrb_alloc) # replicate 20 5) \<and>
            nrb_sections nrb_alloc + int (length (replicate 20 (5 :: 64 word))) \<le> NRB_MAXSECT"
    using srt [of 20] by (simp add: l0 s0 nrb_consts)
  from growth_correct [OF c_alloc, THEN conjunct2, THEN conjunct1, rule_format, OF h3]
  obtain p3 where p3: "sect_all nrb_alloc (replicate 20 5)
                         = Inr (replicate (length (replicate 20 (5 :: 64 word))) 1, p3)"
    "nrb_sections p3 = nrb_sections nrb_alloc + int (length (replicate 20 (5 :: 64 word)))"
    "\<forall>i. 0 \<le> i \<and> i < nrb_sections nrb_alloc \<longrightarrow> nrb_offset p3 i = nrb_offset nrb_alloc i"
    "\<forall>j < length (replicate 20 (5 :: 64 word)).
        nrb_offset p3 (nrb_sections nrb_alloc + int j) = Inr (replicate 20 5 ! j)"
    by blast
  from p3(3) have g30: "nrb_offset p3 0 = Inr 0" by (simp add: s0 o0)
  from p3(4) [rule_format, of 19]
  have "nrb_offset p3 (nrb_sections nrb_alloc + int 19) = Inr (replicate 20 5 ! 19)"
    by simp
  then have g3: "nrb_offset p3 20 = Inr 5" by (simp add: s0)
  \<comment> \<open>the ceiling of the section table\<close>
  have h4: "sorted_wrt (\<lambda>a b. sint a \<le> sint b) (last (sections_of nrb_alloc) # replicate 65534 5) \<and>
            nrb_sections nrb_alloc + int (length (replicate 65534 (5 :: 64 word))) \<le> NRB_MAXSECT"
    using srt [of 65534] by (simp add: l0 s0 nrb_consts)
  from growth_correct [OF c_alloc, THEN conjunct2, THEN conjunct1, rule_format, OF h4]
  obtain p4 where p4: "sect_all nrb_alloc (replicate 65534 5)
                         = Inr (replicate (length (replicate 65534 (5 :: 64 word))) 1, p4)"
    "nrb_sections p4 = nrb_sections nrb_alloc + int (length (replicate 65534 (5 :: 64 word)))"
    "sections_of p4 = sections_of nrb_alloc @ replicate 65534 5"
    by blast
  have c4: "constructed p4" using c_alloc p4(1) by (rule sect_all_constructed)
  have "sint (last (sections_of p4)) \<le> sint (5 :: 64 word) \<and> nrb_sections p4 = NRB_MAXSECT"
    unfolding p4(2,3) by (simp add: s0 nrb_consts)
  with growth_correct [OF c4, THEN conjunct2, THEN conjunct2, THEN conjunct2]
  have f4: "nrb_sect p4 5 = Inr (0, p4)" by blast
  from c_alloc ok p1(1,2) g1 p2(1,2) f2 p3(1,2) g30 g3 p4(1,2) f4
  show ?thesis by (simp add: n0 s0)
qed

theorem growth_section_count_counterexample:
  "\<exists>pd'. sect_all nrb_alloc [5] = Inr ([1], pd') \<and> nrb_sections pd' = 2 \<and>
         nrb_sections pd' \<noteq> int (length [5 :: 64 word])"
proof -
  have "sorted_wrt (\<lambda>a b. sint a \<le> sint b) (last (sections_of nrb_alloc) # [5 :: 64 word])"
    by (simp add: sections_of_alloc)
  moreover have "sect_count nrb_alloc + int (length [5 :: 64 word]) \<le> NRB_MAXSECT"
    by (simp add: nrb_alloc_def nrb_consts)
  ultimately obtain pd' where "sect_all nrb_alloc [5] = Inr (replicate (length [5 :: 64 word]) 1, pd')"
    "sect_count pd' = sect_count nrb_alloc + int (length [5 :: 64 word])"
    using sect_all_ok [OF doc_inv_alloc, of "[5]"] by blast
  then show ?thesis by (auto simp: nrb_sections_def nrb_alloc_def)
qed

section \<open>Bias encoding symmetry\<close>

text \<open>
  C6. For every integer \<open>v\<close> in [-128, 127], \<open>nrb_writeBias8\<close> appends exactly one byte,
  of value \<open>v + 128\<close>, and \<open>nrb_readBias8\<close> on a file that starts with that byte succeeds
  and returns exactly \<open>v\<close>.
\<close>

theorem bias8_roundtrip:
  assumes "- 128 \<le> v" and "v \<le> 127"
  shows "\<exists>b. nrb_writeBias8 pOut v = Inr (pOut @ [b]) \<and> uint b = v + 128 \<and>
             nrb_readBias8 (b # rest) = Inr (1, v, rest)"
proof -
  define b :: byte where "b = word_of_int (v + 128)"
  have ub: "uint b = v + 128"
    unfolding b_def using assms by (intro uint_byte_of_int) auto
  have w: "nrb_writeBias8 pOut v = Inr (pOut @ [b])"
    using assms by (simp add: nrb_writeBias8_def nrb_writeByte_def nrb_consts b_def)
  have r: "nrb_readBias8 (b # rest) = Inr (1, v, rest)"
    using assms by (simp add: nrb_readBias8_def nrb_readByte_def nrb_consts ub)
  from w ub r show ?thesis by blast
qed

theorem bias8_roundtrip_witness:
  "- 128 \<le> (- 39 :: int) \<and> (- 39 :: int) \<le> 127 \<and>
   (\<exists>b. nrb_writeBias8 [] (- 39) = Inr ([] @ [b]) \<and> uint b = - 39 + 128 \<and>
        nrb_readBias8 (b # [7]) = Inr (1, - 39, [7]))"
  using bias8_roundtrip [of "- 39" "[]" "[7]"] by simp

section \<open>Scenario B: a file of minor version 1\<close>

text \<open>
  C7, as amended. Take a file with the two signatures, major version 1, minor version 1,
  one section at offset 0 and one note with start 0, release 1000, pitch 0,
  articulation 0, ramp 0, section 0 and layer 0, whatever its sixteen reserved bytes and
  whatever bytes follow the note. If each of the four reserved fields has its top bit
  clear, that is holds at most \<open>2^31 - 1\<close>, \<open>nrb_parse\<close> returns a document for it, with
  version status \<open>NRB_VER_MINOR\<close>; the document has one note, the one of the file, and
  one section at offset 0, and the bytes after the note are left unread. If one of the
  four reserved fields has its top bit set, \<open>nrb_parse\<close> returns no document, the version
  status still being \<open>NRB_VER_MINOR\<close>.
\<close>

theorem scenario_minor_version:
  "(reserved_ok r \<longrightarrow>
      (\<exists>pd. nrb_parse (scenario_stream r @ extra) = Inr (NRB_VER_MINOR, Some pd, extra) \<and>
            nrb_notes pd = 1 \<and> nrb_sections pd = 1 \<and> nrb_offset pd 0 = Inr 0 \<and>
            nrb_get pd 0 = Inr example_note)) \<and>
   (length r = 16 \<and> \<not> reserved_ok r \<longrightarrow>
      parse_outcome (scenario_stream r @ extra) = Some (NRB_VER_MINOR, None))"
proof (intro conjI impI)
  assume "reserved_ok r"
  from scenario_parse [OF this, of extra] example_doc_reads
  show "\<exists>pd. nrb_parse (scenario_stream r @ extra) = Inr (NRB_VER_MINOR, Some pd, extra) \<and>
            nrb_notes pd = 1 \<and> nrb_sections pd = 1 \<and> nrb_offset pd 0 = Inr 0 \<and>
            nrb_get pd 0 = Inr example_note" by blast
next
  assume "length r = 16 \<and> \<not> reserved_ok r"
  then show "parse_outcome (scenario_stream r @ extra) = Some (NRB_VER_MINOR, None)"
    using scenario_parse_fail by blast
qed

theorem scenario_minor_version_witness:
  "reserved_ok [0x7F, 0xFF, 0xFF, 0xFF, 0, 0, 0, 1, 0x12, 0x34, 0x56, 0x78, 0, 0x80, 0x80, 0x80] \<and>
   (\<exists>pd. nrb_parse (scenario_stream
              [0x7F, 0xFF, 0xFF, 0xFF, 0, 0, 0, 1, 0x12, 0x34, 0x56, 0x78, 0, 0x80, 0x80, 0x80] @ [7, 7])
            = Inr (NRB_VER_MINOR, Some pd, [7, 7]) \<and>
         nrb_notes pd = 1 \<and> nrb_sections pd = 1 \<and> nrb_offset pd 0 = Inr 0 \<and>
         nrb_get pd 0 = Inr example_note)"
proof -
  have a: "reserved_ok [0x7F, 0xFF, 0xFF, 0xFF, 0, 0, 0, 1, 0x12, 0x34, 0x56, 0x78, 0, 0x80, 0x80, 0x80]"
    by code_simp
  from scenario_minor_version [of
      "[0x7F, 0xFF, 0xFF, 0xFF, 0, 0, 0, 1, 0x12, 0x34, 0x56, 0x78, 0, 0x80, 0x80, 0x80]" "[7, 7]",
      THEN conjunct1, rule_format, OF a] a
  show ?thesis by (intro conjI)
qed

theorem scenario_reserved_field_counterexample:
  "take 16 (scenario_stream [0, 0, 0, 0, 0, 0, 0, 0, 0, 0, 0, 0, 0xFF, 0xFF, 0xFF, 0xFF])
     = take 16 example_stream \<and>
   drop 32 (scenario_stream [0, 0, 0, 0, 0, 0, 0, 0, 0, 0, 0, 0, 0xFF, 0xFF, 0xFF, 0xFF])
     = drop 32 example_stream \<and>
   length (scenario_stream [0, 0, 0, 0, 0, 0, 0, 0, 0, 0, 0, 0, 0xFF, 0xFF, 0xFF, 0xFF]) = 64 \<and>
   nrb_parse (scenario_stream [0, 0, 0, 0, 0, 0, 0, 0, 0, 0, 0, 0, 0xFF, 0xFF, 0xFF, 0xFF])
     = Inr (NRB_VER_MINOR, None, drop 32 example_stream)"
  by code_simp

section \<open>Sorting\<close>



section \<open>Scenario C: a note whose release is not after its start\<close>

text \<open>
  C9. \<open>nrb_append\<close> with a note whose release is less than or equal to its start
  aborts, and it aborts with the document exactly as it was passed in: nothing of it,
  the note count included, has been changed when the process ends.
\<close>

theorem append_release_not_after_start_aborts:
  assumes "sint (release pn) \<le> sint (start pn)"
  shows "nrb_append pd pn = Inl (Abort pd)"
  using assms by (simp add: nrb_append_def check_note_def)

theorem append_release_not_after_start_aborts_witness:
  "sint (release (example_note\<lparr>release := 0\<rparr>)) \<le> sint (start (example_note\<lparr>release := 0\<rparr>)) \<and>
   nrb_append example_doc (example_note\<lparr>release := 0\<rparr>) = Inl (Abort example_doc) \<and>
   nrb_notes example_doc = 1"
proof -
  have h: "sint (release (example_note\<lparr>release := 0\<rparr>)) \<le> sint (start (example_note\<lparr>release := 0\<rparr>))"
    by (simp add: example_note_def)
  from append_release_not_after_start_aborts [OF h, of example_doc] h show ?thesis
    by (simp add: nrb_notes_def example_doc_def)
qed

section \<open>Trailing data\<close>

text \<open>
  C10. When \<open>nrb_parse\<close> succeeds on a file, it succeeds on the file followed by any
  further bytes, with the same version status and the same document, and it leaves those
  further bytes unread behind what it left unread before. What it has read is exactly the
  32 bytes of the header, 8 bytes for each section and 24 bytes for each note: the file is
  that body followed by what was left unread, and the body followed by any bytes at all
  parses to the same status and document, leaving just those bytes.
\<close>

theorem trailing_data_ignored:
  assumes "nrb_parse pf = Inr (ver, Some pd, rest)"
  shows "nrb_parse (pf @ extra) = Inr (ver, Some pd, rest @ extra) \<and>
    (\<exists>body. pf = body @ rest \<and>
       int (length body) = 32 + 8 * nrb_sections pd + 24 * nrb_notes pd \<and>
       (\<forall>t. nrb_parse (body @ t) = Inr (ver, Some pd, t)))"
proof
  show "nrb_parse (pf @ extra) = Inr (ver, Some pd, rest @ extra)"
    using assms by (rule nrb_parse_app)
next
  from nrb_parse_strip [OF assms] obtain p where p: "pf = p @ rest"
    "length p = 32 + 8 * nat (sect_count pd) + 24 * nat (note_count pd)"
    "nrb_parse p = Inr (ver, Some pd, [])" by blast
  from nrb_parse_inv [OF assms] have inv: "doc_inv pd" .
  then have nn: "0 \<le> sect_count pd" "0 \<le> note_count pd"
    by (simp_all add: doc_inv_def)
  have len: "int (length p) = 32 + 8 * nrb_sections pd + 24 * nrb_notes pd"
    using p(2) nn by (simp add: nrb_sections_def nrb_notes_def)
  have "nrb_parse (p @ t) = Inr (ver, Some pd, t)" for t
    using nrb_parse_app [OF p(3), of t] by simp
  with p(1) len show "\<exists>body. pf = body @ rest \<and>
       int (length body) = 32 + 8 * nrb_sections pd + 24 * nrb_notes pd \<and>
       (\<forall>t. nrb_parse (body @ t) = Inr (ver, Some pd, t))" by blast
qed

theorem trailing_data_ignored_witness:
  "nrb_parse example_stream = Inr (NRB_VER_MINOR, Some example_doc, []) \<and>
   nrb_parse (example_stream @ [1, 2, 3]) = Inr (NRB_VER_MINOR, Some example_doc, [1, 2, 3]) \<and>
   int (length example_stream) = 32 + 8 * nrb_sections example_doc + 24 * nrb_notes example_doc"
proof -
  have h: "nrb_parse example_stream = Inr (NRB_VER_MINOR, Some example_doc, [])"
    by code_simp
  from trailing_data_ignored [OF h, of "[1, 2, 3]"] h show ?thesis by auto
qed

end
